theory Spec2Isabelle
  imports Main
begin

section \<open>Python values and library operations used by the notebook\<close>

text \<open>
  The exceptions the modelled code can raise. A raise is the value \<open>Inl e\<close>.
\<close>

datatype py_error =
  AssertionError | ZeroDivisionError | ValueError | IndexError | TypeError | KeyError

text \<open>
  \<open>xs[i]\<close> and \<open>xs[i] = v\<close> on a Python sequence with an integer index: a negative index
  counts from the end, an index outside the sequence raises IndexError. Lists, deques and
  one-dimensional numpy arrays agree on this.
\<close>

definition py_getitem :: "'a list \<Rightarrow> int \<Rightarrow> py_error + 'a" where
  "py_getitem xs i =
     (let n = int (length xs); j = (if i < 0 then i + n else i)
      in if 0 \<le> j \<and> j < n then Inr (xs ! nat j) else Inl IndexError)"

definition py_setitem :: "'a list \<Rightarrow> int \<Rightarrow> 'a \<Rightarrow> py_error + 'a list" where
  "py_setitem xs i v =
     (let n = int (length xs); j = (if i < 0 then i + n else i)
      in if 0 \<le> j \<and> j < n then Inr (xs[nat j := v]) else Inl IndexError)"

text \<open>
  \<open>xs[i:j]\<close> on a list never raises: each bound is shifted by the length when negative and
  then clamped into \<open>[0, len(xs)]\<close>.
\<close>

definition slice_bound :: "nat \<Rightarrow> int \<Rightarrow> nat" where
  "slice_bound n i = (if i < 0 then nat (i + int n) else min (nat i) n)"

definition py_slice :: "'a list \<Rightarrow> int \<Rightarrow> int \<Rightarrow> 'a list" where
  "py_slice xs i j =
     (let lo = slice_bound (length xs) i; hi = slice_bound (length xs) j
      in take (hi - lo) (drop lo xs))"

text \<open>
  \<open>collections.deque(maxlen = m)\<close>: the deque is the list of its elements, oldest first.
  Appending to a full deque drops the oldest element. A deque accepts integer indices only,
  so the slice assignment \<open>buffer[:] = xs\<close> raises TypeError whatever \<open>xs\<close> is.
\<close>

definition deque_append :: "nat \<Rightarrow> 'a list \<Rightarrow> 'a \<Rightarrow> 'a list" where
  "deque_append maxlen buf x = (let b = buf @ [x] in drop (length b - maxlen) b)"

definition deque_extend :: "nat \<Rightarrow> 'a list \<Rightarrow> 'a list \<Rightarrow> 'a list" where
  "deque_extend maxlen buf xs = foldl (deque_append maxlen) buf xs"

definition deque_set_slice :: "'a list \<Rightarrow> 'a list \<Rightarrow> py_error + 'a list" where
  "deque_set_slice buf xs = Inl TypeError"

text \<open>
  \<open>np.ndarray(shape = n, dtype = np.int32)\<close> allocates \<open>n\<close> cells without initialising them;
  a cell that was never written is \<open>None\<close>. A negative shape raises ValueError. Corpus
  entries are word ranks and lie within the range of int32, so a stored value is read back
  unchanged.
\<close>

definition np_ndarray :: "int \<Rightarrow> py_error + int option list" where
  "np_ndarray n = (if n < 0 then Inl ValueError else Inr (replicate (nat n) None))"

text \<open>
  \<open>random.sample(population, k)\<close> raises ValueError unless \<open>0 \<le> k \<le> len(population)\<close>.
  The random choice itself is a parameter: \<open>smp i population k\<close> is what the \<open>i\<close>-th draw of
  a call returns. \<open>valid_sample\<close> is the library's contract for a population without
  repeated elements: \<open>k\<close> elements of the population, none taken twice.
\<close>

type_synonym sample_fn = "nat \<Rightarrow> int list \<Rightarrow> nat \<Rightarrow> int list"

definition random_sample :: "sample_fn \<Rightarrow> nat \<Rightarrow> int list \<Rightarrow> int \<Rightarrow> py_error + int list" where
  "random_sample smp i population k =
     (if k < 0 \<or> int (length population) < k then Inl ValueError
      else Inr (smp i population (nat k)))"

definition valid_sample :: "int list \<Rightarrow> nat \<Rightarrow> int list \<Rightarrow> bool" where
  "valid_sample population k r \<longleftrightarrow>
     length r = k \<and> distinct r \<and> list_all (\<lambda>p. p \<in> set population) r"

section \<open>The skip-gram batch sampler: \<open>generate_batch\<close>\<close>

text \<open>
  The globals the function uses: the corpus \<open>data\<close>, which it only reads, and the cursor
  \<open>data_index\<close>, which it updates. The locals of one call: the window \<open>buffer\<close>, the two
  output arrays (\<open>labels\<close> has shape \<open>(batch_size, 1)\<close>; the list holds its only column), and
  \<open>reads\<close>, a record of the corpus indices the call has asked for, kept for the statement
  about bounds and read by no operation.
\<close>

record globals =
  data :: "int list"
  data_index :: int

record locals =
  buffer :: "int list"
  batch :: "int option list"
  labels :: "int option list"
  reads :: "int list"

definition context_words :: "int \<Rightarrow> int \<Rightarrow> int list" where
  "context_words span skip_window = filter (\<lambda>w. w \<noteq> skip_window) [0..span - 1]"

text \<open>The inner loop \<open>for j, context_word in enumerate(words_to_use)\<close>.\<close>

fun write_pairs :: "int \<Rightarrow> int \<Rightarrow> int \<Rightarrow> nat \<Rightarrow> int list \<Rightarrow> locals \<Rightarrow> py_error + locals" where
  "write_pairs i num_skips skip_window j [] l = Inr l"
| "write_pairs i num_skips skip_window j (context_word # rest) l =
     (case py_getitem (buffer l) skip_window of
        Inl e \<Rightarrow> Inl e
      | Inr c \<Rightarrow>
     (case py_setitem (batch l) (i * num_skips + int j) (Some c) of
        Inl e \<Rightarrow> Inl e
      | Inr b \<Rightarrow>
     (case py_getitem (buffer l) context_word of
        Inl e \<Rightarrow> Inl e
      | Inr x \<Rightarrow>
     (case py_setitem (labels l) (i * num_skips + int j) (Some x) of
        Inl e \<Rightarrow> Inl e
      | Inr lb \<Rightarrow>
          write_pairs i num_skips skip_window (Suc j) rest (l\<lparr>batch := b, labels := lb\<rparr>)))))"

text \<open>
  The end of one group: at the corpus end the window is to be reloaded from the start of the
  corpus, otherwise the next corpus element is appended and the cursor moves by one.
\<close>

definition slide :: "int \<Rightarrow> locals \<times> globals \<Rightarrow> py_error + locals \<times> globals" where
  "slide span lg =
     (case lg of (l, g) \<Rightarrow>
        if data_index g = int (length (data g)) then
          (case deque_set_slice (buffer l) (py_slice (data g) 0 span) of
             Inl e \<Rightarrow> Inl e
           | Inr b \<Rightarrow> Inr (l\<lparr>buffer := b, reads := reads l @ [0..span - 1]\<rparr>,
                          g\<lparr>data_index := span\<rparr>))
        else
          (case py_getitem (data g) (data_index g) of
             Inl e \<Rightarrow> Inl e
           | Inr x \<Rightarrow> Inr (l\<lparr>buffer := deque_append (nat span) (buffer l) x,
                            reads := reads l @ [data_index g]\<rparr>,
                          g\<lparr>data_index := data_index g + 1\<rparr>)))"

text \<open>One iteration of \<open>for i in range(batch_size // num_skips)\<close>.\<close>

definition group_body ::
  "sample_fn \<Rightarrow> int \<Rightarrow> int \<Rightarrow> int \<Rightarrow> nat \<Rightarrow> locals \<times> globals \<Rightarrow> py_error + locals \<times> globals" where
  "group_body smp num_skips skip_window span i lg =
     (case lg of (l, g) \<Rightarrow>
        (case random_sample smp i (context_words span skip_window) num_skips of
           Inl e \<Rightarrow> Inl e
         | Inr words_to_use \<Rightarrow>
        (case write_pairs (int i) num_skips skip_window 0 words_to_use l of
           Inl e \<Rightarrow> Inl e
         | Inr l' \<Rightarrow> slide span (l', g))))"

text \<open>
  The outer loop over the group numbers. An exception leaves the loop with the globals as
  they are at that moment; within one iteration the cursor is assigned only as its last
  statement, so these are the globals the iteration started with.
\<close>

fun run_groups ::
  "sample_fn \<Rightarrow> int \<Rightarrow> int \<Rightarrow> int \<Rightarrow> nat list \<Rightarrow> locals \<times> globals
     \<Rightarrow> py_error \<times> globals + locals \<times> globals" where
  "run_groups smp num_skips skip_window span [] lg = Inr lg"
| "run_groups smp num_skips skip_window span (i # is) lg =
     (case group_body smp num_skips skip_window span i lg of
        Inl e \<Rightarrow> Inl (e, snd lg)
      | Inr lg' \<Rightarrow> run_groups smp num_skips skip_window span is lg')"

text \<open>
  The statements before the loop, from the two assertions to \<open>data_index += span\<close>. The
  remainder of a division by zero raises ZeroDivisionError before the first assertion can
  compare it.
\<close>

definition enter ::
  "int \<Rightarrow> int \<Rightarrow> int \<Rightarrow> globals \<Rightarrow> py_error \<times> globals + locals \<times> globals" where
  "enter batch_size num_skips skip_window g =
     (if num_skips = 0 then Inl (ZeroDivisionError, g)
      else if batch_size mod num_skips \<noteq> 0 then Inl (AssertionError, g)
      else if \<not> num_skips \<le> 2 * skip_window then Inl (AssertionError, g)
      else
        (case np_ndarray batch_size of
           Inl e \<Rightarrow> Inl (e, g)
         | Inr arr \<Rightarrow>
             let span = 2 * skip_window + 1 in
             if span < 0 then Inl (ValueError, g)
             else
               let g1 = (if data_index g + span > int (length (data g))
                         then g\<lparr>data_index := 0\<rparr> else g);
                   buf = deque_extend (nat span) []
                           (py_slice (data g1) (data_index g1) (data_index g1 + span))
               in Inr (\<lparr>buffer = buf, batch = arr, labels = arr,
                         reads = [data_index g1..data_index g1 + span - 1]\<rparr>,
                       g1\<lparr>data_index := data_index g1 + span\<rparr>)))"

text \<open>The call up to the end of the \<open>for\<close> loop.\<close>

definition run_loop ::
  "sample_fn \<Rightarrow> int \<Rightarrow> int \<Rightarrow> int \<Rightarrow> globals \<Rightarrow> py_error \<times> globals + locals \<times> globals" where
  "run_loop smp batch_size num_skips skip_window g =
     (case enter batch_size num_skips skip_window g of
        Inl eg \<Rightarrow> Inl eg
      | Inr lg \<Rightarrow>
          run_groups smp num_skips skip_window (2 * skip_window + 1)
            [0..<nat (batch_size div num_skips)] lg)"

text \<open>
  The whole call, with the locals it ends with. After the loop the cursor is moved back;
  on an empty corpus that remainder raises ZeroDivisionError.
\<close>

definition generate_batch_run ::
  "sample_fn \<Rightarrow> int \<Rightarrow> int \<Rightarrow> int \<Rightarrow> globals \<Rightarrow> py_error \<times> globals + locals \<times> globals" where
  "generate_batch_run smp batch_size num_skips skip_window g =
     (case run_loop smp batch_size num_skips skip_window g of
        Inl eg \<Rightarrow> Inl eg
      | Inr (l, g') \<Rightarrow>
          let span = 2 * skip_window + 1 in
          if length (data g') = 0 then Inl (ZeroDivisionError, g')
          else Inr (l, g'\<lparr>data_index :=
                      (data_index g' + int (length (data g')) - span)
                        mod int (length (data g'))\<rparr>))"

text \<open>
  What the caller sees: the pair \<open>(batch, labels)\<close> or the exception, and the globals
  afterwards in both cases.
\<close>

definition generate_batch ::
  "sample_fn \<Rightarrow> int \<Rightarrow> int \<Rightarrow> int \<Rightarrow> globals
     \<Rightarrow> (py_error + int option list \<times> int option list) \<times> globals" where
  "generate_batch smp batch_size num_skips skip_window g =
     (case generate_batch_run smp batch_size num_skips skip_window g of
        Inl (e, g') \<Rightarrow> (Inl e, g')
      | Inr (l, g') \<Rightarrow> (Inr (batch l, labels l), g'))"

text \<open>
  The training loop calls \<open>generate_batch\<close> once per step. \<open>run_calls\<close> makes the calls of a
  list, each with its own draws and arguments, and stops at the first exception; it
  returns the locals each call ended with.
\<close>

fun run_calls ::
  "(sample_fn \<times> int \<times> int \<times> int) list \<Rightarrow> globals \<Rightarrow> py_error \<times> globals + locals list \<times> globals" where
  "run_calls [] g = Inr ([], g)"
| "run_calls (c # cs) g =
     (case c of (smp, batch_size, num_skips, skip_window) \<Rightarrow>
        (case generate_batch_run smp batch_size num_skips skip_window g of
           Inl eg \<Rightarrow> Inl eg
         | Inr (l, g') \<Rightarrow>
             (case run_calls cs g' of
                Inl eg \<Rightarrow> Inl eg
              | Inr (ls, g'') \<Rightarrow> Inr (l # ls, g''))))"

text \<open>A fixed source of draws for concrete runs: the first \<open>k\<close> elements of the population.\<close>

definition first_k :: sample_fn where
  "first_k i population k = take k population"

section \<open>The vocabulary builder: \<open>build_dataset\<close>\<close>

text \<open>
  A Python dict keeps its keys in insertion order and holds each key once: it is a list
  of pairs. \<open>d[k] = v\<close> replaces the value of a key already there, in place, and appends a
  new key at the end. \<open>d.get(k, default)\<close> never raises; \<open>d[k]\<close> raises KeyError on a
  missing key.
\<close>

fun dict_set :: "('k \<times> 'v) list \<Rightarrow> 'k \<Rightarrow> 'v \<Rightarrow> ('k \<times> 'v) list" where
  "dict_set [] k v = [(k, v)]"
| "dict_set ((k', v') # kvs) k v =
     (if k' = k then (k', v) # kvs else (k', v') # dict_set kvs k v)"

definition dict_get :: "('k \<times> 'v) list \<Rightarrow> 'k \<Rightarrow> 'v \<Rightarrow> 'v" where
  "dict_get d k dflt = (case map_of d k of None \<Rightarrow> dflt | Some v \<Rightarrow> v)"

definition dict_lookup :: "('k \<times> 'v) list \<Rightarrow> 'k \<Rightarrow> py_error + 'v" where
  "dict_lookup d k = (case map_of d k of None \<Rightarrow> Inl KeyError | Some v \<Rightarrow> Inr v)"

text \<open>\<open>dict(pairs)\<close> stores the pairs one after the other.\<close>

definition dict_of_pairs :: "('k \<times> 'v) list \<Rightarrow> ('k \<times> 'v) list" where
  "dict_of_pairs kvs = foldl (\<lambda>d kv. dict_set d (fst kv) (snd kv)) [] kvs"

text \<open>
  \<open>collections.Counter(words)\<close> is a dict from each element to the number of its
  occurrences, the keys in the order in which they are first met. \<open>most_common(n)\<close> is the
  first \<open>n\<close> entries of the stable sort by descending count, and no entry when \<open>n \<le> 0\<close>.
\<close>

definition counter :: "'a list \<Rightarrow> ('a \<times> int) list" where
  "counter words = foldl (\<lambda>c w. dict_set c w (dict_get c w 0 + 1)) [] words"

definition most_common :: "('a \<times> int) list \<Rightarrow> int \<Rightarrow> ('a \<times> int) list" where
  "most_common c n = take (nat n) (sort_key (\<lambda>kv. - snd kv) c)"

text \<open>The loop \<open>for word, _ in count: dictionary[word] = len(dictionary)\<close>.\<close>

definition rank_words :: "('a \<times> int) list \<Rightarrow> ('a \<times> int) list \<Rightarrow> ('a \<times> int) list" where
  "rank_words dictionary count =
     foldl (\<lambda>d wc. dict_set d (fst wc) (int (length d))) dictionary count"

text \<open>The loop \<open>for word in words\<close>, on the pair \<open>(data, unk_count)\<close>.\<close>

definition encode_words :: "('a \<times> int) list \<Rightarrow> 'a list \<Rightarrow> int list \<times> int" where
  "encode_words dictionary words =
     foldl (\<lambda>du word.
              let index = dict_get dictionary word 0
              in (fst du @ [index], if index = 0 then snd du + 1 else snd du))
           ([], 0) words"

text \<open>
  The result is the tuple \<open>(data, count, dictionary, reversed_dictionary)\<close>; \<open>count\<close> has the
  entry of the sentinel first, its \<open>-1\<close> replaced by \<open>unk_count\<close> before the return.
\<close>

definition build_dataset ::
  "string list \<Rightarrow> int
     \<Rightarrow> int list \<times> (string \<times> int) list \<times> (string \<times> int) list \<times> (int \<times> string) list" where
  "build_dataset words n_words =
     (let count = (''UNK'', - 1) # most_common (counter words) (n_words - 1);
          dictionary = rank_words [] count;
          du = encode_words dictionary words;
          data = fst du;
          unk_count = snd du;
          count' = (''UNK'', unk_count) # tl count;
          reversed_dictionary = dict_of_pairs (zip (map snd dictionary) (map fst dictionary))
      in (data, count', dictionary, reversed_dictionary))"

section \<open>Notions used in the statements\<close>

text \<open>
  The corpus position at which a call loads its first window: 0 when the cursor is so close
  to the corpus end that a whole window no longer fits, the cursor otherwise.
\<close>

definition start_index :: "int \<Rightarrow> globals \<Rightarrow> int" where
  "start_index skip_window g =
     (if data_index g + (2 * skip_window + 1) > int (length (data g)) then 0 else data_index g)"

text \<open>The window (the contents of \<open>buffer\<close>) when group \<open>i\<close> of a call starts, if the call gets there.\<close>

definition window_at ::
  "sample_fn \<Rightarrow> int \<Rightarrow> int \<Rightarrow> int \<Rightarrow> globals \<Rightarrow> nat \<Rightarrow> int list option" where
  "window_at smp batch_size num_skips skip_window g i =
     (case enter batch_size num_skips skip_window g of
        Inl eg \<Rightarrow> None
      | Inr lg \<Rightarrow>
          (case run_groups smp num_skips skip_window (2 * skip_window + 1) [0..<i] lg of
             Inl eg \<Rightarrow> None
           | Inr lg' \<Rightarrow> Some (buffer (fst lg'))))"

text \<open>The draws of the first \<open>n\<close> groups of a call all keep the contract of \<open>random.sample\<close>.\<close>

definition draws_ok :: "sample_fn \<Rightarrow> int \<Rightarrow> int \<Rightarrow> nat \<Rightarrow> bool" where
  "draws_ok smp num_skips skip_window n \<longleftrightarrow>
     list_all (\<lambda>i. valid_sample (context_words (2 * skip_window + 1) skip_window) (nat num_skips)
                     (smp i (context_words (2 * skip_window + 1) skip_window) (nat num_skips)))
       [0..<n]"

text \<open>The cursor is a position of the corpus.\<close>

definition cursor_ok :: "globals \<Rightarrow> bool" where
  "cursor_ok g \<longleftrightarrow> 0 \<le> data_index g \<and> data_index g < int (length (data g))"

text \<open>
  The words \<open>build_dataset\<close> keeps: the keys of \<open>most_common(n_words - 1)\<close>, in its order.
\<close>

definition top_words :: "string list \<Rightarrow> int \<Rightarrow> string list" where
  "top_words words n_words = map fst (most_common (counter words) (n_words - 1))"

section \<open>Facts about the library operations\<close>

lemma py_getitem_nonneg:
  "0 \<le> i \<Longrightarrow> py_getitem xs i = Inr v \<longleftrightarrow> nat i < length xs \<and> v = xs ! nat i"
  by (auto simp: py_getitem_def Let_def)

lemma py_setitem_nonneg:
  "0 \<le> i \<Longrightarrow> py_setitem xs i v = Inr ys \<longleftrightarrow> nat i < length xs \<and> ys = xs[nat i := v]"
  by (auto simp: py_setitem_def Let_def)

lemma py_slice_plain:
  "0 \<le> i \<Longrightarrow> 0 \<le> n \<Longrightarrow> i + n \<le> int (length xs) \<Longrightarrow>
     py_slice xs i (i + n) = take (nat n) (drop (nat i) xs)"
  by (auto simp: py_slice_def slice_bound_def Let_def min_def nat_add_distrib nat_diff_distrib)

lemma deque_extend_fits:
  "length buf + length xs \<le> m \<Longrightarrow> deque_extend m buf xs = buf @ xs"
  unfolding deque_extend_def
  by (induction xs arbitrary: buf) (auto simp: deque_append_def)

lemma deque_append_full:
  "length buf = n \<Longrightarrow> 0 < n \<Longrightarrow> deque_append n buf x = drop 1 buf @ [x]"
  by (cases buf) (auto simp: deque_append_def Let_def)

lemma deque_append_window:
  assumes "k + n < length xs" and "0 < n"
  shows "deque_append n (take n (drop k xs)) (xs ! (k + n)) = take n (drop (Suc k) xs)"
proof -
  have len: "length (take n (drop k xs)) = n" using assms by simp
  have "take n (drop (Suc k) xs) = drop 1 (take (Suc n) (drop k xs))"
    by (simp add: drop_take)
  also have "take (Suc n) (drop k xs) = take n (drop k xs) @ [xs ! (k + n)]"
    using assms by (simp add: take_Suc_conv_app_nth)
  also have "drop 1 (take n (drop k xs) @ [xs ! (k + n)]) = drop 1 (take n (drop k xs)) @ [xs ! (k + n)]"
    using len assms by (cases n) auto
  finally show ?thesis using deque_append_full [OF len assms(2)] by simp
qed

lemma run_groups_append:
  "run_groups smp ns sw span (xs @ ys) lg =
     (case run_groups smp ns sw span xs lg of
        Inl eg \<Rightarrow> Inl eg
      | Inr lg' \<Rightarrow> run_groups smp ns sw span ys lg')"
  by (induction xs arbitrary: lg) (auto split: sum.splits)


lemma write_pairs_frame:
  "write_pairs i ns sw j ws l = Inr l' \<Longrightarrow>
     buffer l' = buffer l \<and> reads l' = reads l \<and>
     length (batch l') = length (batch l) \<and> length (labels l') = length (labels l)"
  by (induction ws arbitrary: j l)
     (auto split: sum.splits simp: py_setitem_def Let_def split: if_splits)

lemma write_pairs_Cons_Inr:
  "write_pairs i ns sw j (cw # rest) l = Inr l' \<longleftrightarrow>
     (\<exists>c b x lb.
        py_getitem (buffer l) sw = Inr c \<and>
        py_setitem (batch l) (i * ns + int j) (Some c) = Inr b \<and>
        py_getitem (buffer l) cw = Inr x \<and>
        py_setitem (labels l) (i * ns + int j) (Some x) = Inr lb \<and>
        write_pairs i ns sw (Suc j) rest (l\<lparr>batch := b, labels := lb\<rparr>) = Inr l')"
  by (auto split: sum.splits)

lemma write_pairs_effect:
  assumes "write_pairs i ns sw j ws l = Inr l'" and "0 \<le> i * ns" and "0 \<le> sw"
    and "\<forall>cw\<in>set ws. 0 \<le> cw"
  shows "(ws \<noteq> [] \<longrightarrow> nat (i * ns) + j + length ws \<le> length (batch l)
            \<and> nat sw < length (buffer l)) \<and>
         (\<forall>cw\<in>set ws. nat cw < length (buffer l)) \<and>
         (\<forall>k. batch l' ! k =
            (if nat (i * ns) + j \<le> k \<and> k < nat (i * ns) + j + length ws
             then Some (buffer l ! nat sw) else batch l ! k)) \<and>
         (\<forall>k. labels l' ! k =
            (if nat (i * ns) + j \<le> k \<and> k < nat (i * ns) + j + length ws
             then Some (buffer l ! nat (ws ! (k - (nat (i * ns) + j)))) else labels l ! k))"
  using assms
proof (induction ws arbitrary: j l)
  case Nil
  then show ?case by auto
next
  case (Cons cw rest)
  let ?p = "nat (i * ns) + j"
  from Cons.prems(1) obtain c b x lb where
    c: "py_getitem (buffer l) sw = Inr c" and
    b: "py_setitem (batch l) (i * ns + int j) (Some c) = Inr b" and
    x: "py_getitem (buffer l) cw = Inr x" and
    lb: "py_setitem (labels l) (i * ns + int j) (Some x) = Inr lb" and
    rest: "write_pairs i ns sw (Suc j) rest (l\<lparr>batch := b, labels := lb\<rparr>) = Inr l'"
    unfolding write_pairs_Cons_Inr by blast
  have idx: "nat (i * ns + int j) = ?p" and idx0: "0 \<le> i * ns + int j"
    using Cons.prems(2) by (simp_all add: nat_add_distrib)
  have cw0: "0 \<le> cw" using Cons.prems(4) by simp
  have c': "nat sw < length (buffer l)" "c = buffer l ! nat sw"
    using c Cons.prems(3) by (simp_all add: py_getitem_nonneg)
  have x': "nat cw < length (buffer l)" "x = buffer l ! nat cw"
    using x cw0 by (simp_all add: py_getitem_nonneg)
  have b': "?p < length (batch l)" "b = (batch l)[?p := Some c]"
    using b idx0 idx by (simp_all add: py_setitem_nonneg)
  have lb': "?p < length (labels l)" "lb = (labels l)[?p := Some x]"
    using lb idx0 idx by (simp_all add: py_setitem_nonneg)
  have IH: "(rest \<noteq> [] \<longrightarrow> nat (i * ns) + Suc j + length rest \<le> length b) \<and>
         (\<forall>cw\<in>set rest. nat cw < length (buffer l)) \<and>
         (\<forall>k. batch l' ! k =
            (if nat (i * ns) + Suc j \<le> k \<and> k < nat (i * ns) + Suc j + length rest
             then Some (buffer l ! nat sw) else b ! k)) \<and>
         (\<forall>k. labels l' ! k =
            (if nat (i * ns) + Suc j \<le> k \<and> k < nat (i * ns) + Suc j + length rest
             then Some (buffer l ! nat (rest ! (k - (nat (i * ns) + Suc j)))) else lb ! k))"
    using Cons.IH [OF rest Cons.prems(2) Cons.prems(3)] Cons.prems(4) by simp
  have len: "nat (i * ns) + j + length (cw # rest) \<le> length (batch l)"
    using IH b' by (cases "rest = []") auto
  have bat: "batch l' ! k =
            (if ?p \<le> k \<and> k < ?p + length (cw # rest)
             then Some (buffer l ! nat sw) else batch l ! k)" for k
    using IH b' c' by (auto simp: nth_list_update)
  have lab: "labels l' ! k =
            (if ?p \<le> k \<and> k < ?p + length (cw # rest)
             then Some (buffer l ! nat ((cw # rest) ! (k - ?p))) else labels l ! k)" for k
  proof (cases "k = ?p")
    case True
    then show ?thesis using IH lb' x' by (simp add: nth_list_update)
  next
    case False
    then show ?thesis using IH lb' x' by (auto simp: nth_list_update nth_Cons')
  qed
  show ?case using len c' x' IH bat lab by simp
qed

section \<open>Facts about the loop of \<open>generate_batch\<close>\<close>

lemma slide_Inr:
  assumes "slide span (l, g) = Inr (l', g')" and "0 \<le> data_index g"
  shows "data_index g < int (length (data g))"
    and "g' = g\<lparr>data_index := data_index g + 1\<rparr>"
    and "l' = l\<lparr>buffer := deque_append (nat span) (buffer l) (data g ! nat (data_index g)),
                reads := reads l @ [data_index g]\<rparr>"
  using assms
  by (auto simp: slide_def deque_set_slice_def py_getitem_def Let_def
           split: if_splits sum.splits)

lemma group_body_Inr:
  assumes "group_body smp ns sw span i (l, g) = Inr (l', g')"
  shows "\<exists>l1. 0 \<le> ns \<and>
           write_pairs (int i) ns sw 0 (smp i (context_words span sw) (nat ns)) l = Inr l1 \<and>
           slide span (l1, g) = Inr (l', g')"
  using assms
  by (auto simp: group_body_def random_sample_def split: if_splits sum.splits)

lemma slot_less: "i < n \<Longrightarrow> j < m \<Longrightarrow> i * m + j < n * (m::nat)"
proof -
  assume "i < n" and "j < m"
  then have "i * m + j < Suc i * m" by simp
  also have "\<dots> \<le> n * m" using \<open>i < n\<close> by (intro mult_le_mono1) simp
  finally show ?thesis .
qed

lemma enter_Inr:
  assumes "enter bs ns sw g = Inr (l0, g0)"
  shows "ns \<noteq> 0" and "bs mod ns = 0" and "ns \<le> 2 * sw" and "0 \<le> bs" and "0 \<le> 2 * sw + 1"
    and "g0 = g\<lparr>data_index := start_index sw g + (2 * sw + 1)\<rparr>"
    and "l0 = \<lparr>buffer = deque_extend (nat (2 * sw + 1)) []
                  (py_slice (data g) (start_index sw g) (start_index sw g + (2 * sw + 1))),
               batch = replicate (nat bs) None, labels = replicate (nat bs) None,
               reads = [start_index sw g..start_index sw g + (2 * sw + 1) - 1]\<rparr>"
  using assms
  by (auto simp: enter_def np_ndarray_def start_index_def Let_def split: if_splits)

lemma enter_buffer:
  assumes "0 \<le> data_index g" and "2 * sw + 1 \<le> int (length (data g))" and "0 \<le> sw"
  shows "0 \<le> start_index sw g"
    and "start_index sw g + (2 * sw + 1) \<le> int (length (data g))"
    and "deque_extend (nat (2 * sw + 1)) []
           (py_slice (data g) (start_index sw g) (start_index sw g + (2 * sw + 1)))
         = take (nat (2 * sw + 1)) (drop (nat (start_index sw g)) (data g))"
proof -
  show s0: "0 \<le> start_index sw g" and s1: "start_index sw g + (2 * sw + 1) \<le> int (length (data g))"
    using assms by (auto simp: start_index_def)
  have "py_slice (data g) (start_index sw g) (start_index sw g + (2 * sw + 1))
          = take (nat (2 * sw + 1)) (drop (nat (start_index sw g)) (data g))"
    using s0 s1 assms(3) by (intro py_slice_plain) auto
  then show "deque_extend (nat (2 * sw + 1)) []
           (py_slice (data g) (start_index sw g) (start_index sw g + (2 * sw + 1)))
         = take (nat (2 * sw + 1)) (drop (nat (start_index sw g)) (data g))"
    by (simp add: deque_extend_fits)
qed


lemma run_groups_snoc:
  "run_groups smp ns sw span [0..<Suc n] lg = Inr r \<longleftrightarrow>
     (\<exists>lg'. run_groups smp ns sw span [0..<n] lg = Inr lg' \<and>
            group_body smp ns sw span n lg' = Inr r)"
  by (auto simp: run_groups_append split: sum.splits)

lemma run_groups_prefix:
  assumes "run_groups smp ns sw span [0..<n] lg = Inr r" and "i \<le> n"
  shows "\<exists>r'. run_groups smp ns sw span [0..<i] lg = Inr r'"
proof -
  have "[0..<n] = [0..<i] @ [i..<n]"
    using assms(2) by (metis le_add_diff_inverse upt_add_eq_append zero_le)
  then show ?thesis
    using assms(1) by (auto simp: run_groups_append split: sum.splits)
qed

lemma slide_frame:
  "slide span (l, g) = Inr (l', g') \<Longrightarrow> batch l' = batch l \<and> labels l' = labels l"
  by (auto simp: slide_def deque_set_slice_def split: if_splits sum.splits)

lemma run_groups_frame:
  "run_groups smp ns sw span [0..<n] (l0, g0) = Inr (l, g) \<Longrightarrow>
     length (batch l) = length (batch l0) \<and> length (labels l) = length (labels l0)"
proof (induction n arbitrary: l g)
  case 0
  then show ?case by simp
next
  case (Suc n)
  from Suc.prems obtain ln gn where
    A: "run_groups smp ns sw span [0..<n] (l0, g0) = Inr (ln, gn)" and
    B: "group_body smp ns sw span n (ln, gn) = Inr (l, g)"
    unfolding run_groups_snoc by auto
  from group_body_Inr [OF B] obtain l1 where
    W: "write_pairs (int n) ns sw 0 (smp n (context_words span sw) (nat ns)) ln = Inr l1" and
    S: "slide span (l1, gn) = Inr (l, g)" by blast
  show ?case using Suc.IH [OF A] write_pairs_frame [OF W] slide_frame [OF S] by simp
qed

lemma run_groups_cursor:
  assumes "run_groups smp ns sw span [0..<n] (l0, g0) = Inr (l, g)"
    and "0 \<le> data_index g0"
  shows "g = g0\<lparr>data_index := data_index g0 + int n\<rparr> \<and>
         (0 < n \<longrightarrow> data_index g0 + int n \<le> int (length (data g0))) \<and>
         reads l = reads l0 @ map (\<lambda>i. data_index g0 + int i) [0..<n] \<and>
         length (batch l) = length (batch l0) \<and> length (labels l) = length (labels l0)"
  using assms
proof (induction n arbitrary: l g)
  case 0
  then show ?case by simp
next
  case (Suc n)
  from Suc.prems(1) obtain ln gn where
    A: "run_groups smp ns sw span [0..<n] (l0, g0) = Inr (ln, gn)" and
    B: "group_body smp ns sw span n (ln, gn) = Inr (l, g)"
    unfolding run_groups_snoc by auto
  note IH = Suc.IH [OF A Suc.prems(2)]
  from group_body_Inr [OF B] obtain l1 where
    W: "write_pairs (int n) ns sw 0 (smp n (context_words span sw) (nat ns)) ln = Inr l1" and
    S: "slide span (l1, gn) = Inr (l, g)" by blast
  have gn0: "0 \<le> data_index gn" using IH Suc.prems(2) by simp
  note F = write_pairs_frame [OF W]
  note S1 = slide_Inr [OF S gn0]
  show ?case using IH F S1 by simp
qed

lemma run_groups_buffer:
  assumes "run_groups smp ns sw span [0..<n] (l0, g0) = Inr (l, g)"
    and "0 < span" and "data_index g0 = int s + span"
    and "buffer l0 = take (nat span) (drop s (data g0))"
  shows "buffer l = take (nat span) (drop (s + n) (data g0))"
  using assms(1)
proof (induction n arbitrary: l g)
  case 0
  then show ?case using assms(4) by simp
next
  case (Suc n)
  have di0: "0 \<le> data_index g0" using assms(2,3) by simp
  from Suc.prems(1) obtain ln gn where
    A: "run_groups smp ns sw span [0..<n] (l0, g0) = Inr (ln, gn)" and
    B: "group_body smp ns sw span n (ln, gn) = Inr (l, g)"
    unfolding run_groups_snoc by auto
  note IH = Suc.IH [OF A]
  have gn: "gn = g0\<lparr>data_index := data_index g0 + int n\<rparr>"
    using run_groups_cursor [OF A di0] by simp
  from group_body_Inr [OF B] obtain l1 where
    W: "write_pairs (int n) ns sw 0 (smp n (context_words span sw) (nat ns)) ln = Inr l1" and
    S: "slide span (l1, gn) = Inr (l, g)" by blast
  have gn0: "0 \<le> data_index gn" using gn di0 by simp
  have b1: "buffer l1 = take (nat span) (drop (s + n) (data g0))"
    using write_pairs_frame [OF W] IH by simp
  have lt: "data_index gn < int (length (data gn))" by (rule slide_Inr(1) [OF S gn0])
  have pos: "nat (data_index gn) = (s + n) + nat span"
    using gn assms(2,3) by (simp add: nat_add_distrib)
  have lt': "(s + n) + nat span < length (data g0)"
    using lt gn assms(2,3) by simp
  have "buffer l = deque_append (nat span) (buffer l1) (data gn ! nat (data_index gn))"
    using slide_Inr(3) [OF S gn0] by simp
  also have "\<dots> = deque_append (nat span) (take (nat span) (drop (s + n) (data g0)))
                     (data g0 ! ((s + n) + nat span))"
    using b1 pos gn by simp
  also have "\<dots> = take (nat span) (drop (Suc (s + n)) (data g0))"
    using lt' assms(2) by (intro deque_append_window) auto
  finally show ?case by simp
qed


lemma run_groups_slots:
  assumes "run_groups smp ns sw span [0..<n] (l0, g0) = Inr (l, g)"
    and "0 \<le> sw"
    and "\<forall>i<n. length (smp i (context_words span sw) (nat ns)) = nat ns \<and>
                (\<forall>cw\<in>set (smp i (context_words span sw) (nat ns)). 0 \<le> cw)"
  shows "(\<forall>i<n. \<forall>j<nat ns. \<forall>li gi.
            run_groups smp ns sw span [0..<i] (l0, g0) = Inr (li, gi) \<longrightarrow>
              batch l ! (i * nat ns + j) = Some (buffer li ! nat sw) \<and>
              labels l ! (i * nat ns + j)
                = Some (buffer li ! nat (smp i (context_words span sw) (nat ns) ! j)) \<and>
              nat sw < length (buffer li) \<and>
              nat (smp i (context_words span sw) (nat ns) ! j) < length (buffer li) \<and>
              i * nat ns + j < length (batch l0))"
  using assms(1,3)
proof (induction n arbitrary: l g)
  case 0
  then show ?case by simp
next
  case (Suc n)
  let ?ws = "smp n (context_words span sw) (nat ns)"
  from Suc.prems(1) obtain ln gn where
    A: "run_groups smp ns sw span [0..<n] (l0, g0) = Inr (ln, gn)" and
    B: "group_body smp ns sw span n (ln, gn) = Inr (l, g)"
    unfolding run_groups_snoc by auto
  have IH: "\<forall>i<n. \<forall>j<nat ns. \<forall>li gi.
            run_groups smp ns sw span [0..<i] (l0, g0) = Inr (li, gi) \<longrightarrow>
              batch ln ! (i * nat ns + j) = Some (buffer li ! nat sw) \<and>
              labels ln ! (i * nat ns + j)
                = Some (buffer li ! nat (smp i (context_words span sw) (nat ns) ! j)) \<and>
              nat sw < length (buffer li) \<and>
              nat (smp i (context_words span sw) (nat ns) ! j) < length (buffer li) \<and>
              i * nat ns + j < length (batch l0)"
  proof (rule Suc.IH [OF A])
    show "\<forall>i<n. length (smp i (context_words span sw) (nat ns)) = nat ns \<and>
                (\<forall>cw\<in>set (smp i (context_words span sw) (nat ns)). 0 \<le> cw)"
      using Suc.prems(2) by (meson less_Suc_eq)
  qed
  have C: "length (batch ln) = length (batch l0)"
    using run_groups_frame [OF A] by simp
  from group_body_Inr [OF B] obtain l1 where ns0: "0 \<le> ns" and
    W: "write_pairs (int n) ns sw 0 ?ws ln = Inr l1" and
    S: "slide span (l1, gn) = Inr (l, g)" by blast
  have ws: "length ?ws = nat ns" "\<forall>cw\<in>set ?ws. 0 \<le> cw"
    using Suc.prems(2) by (meson lessI)+
  have base: "nat (int n * ns) = n * nat ns" "0 \<le> int n * ns"
    using ns0 by (simp_all add: nat_mult_distrib)
  note E = write_pairs_effect [OF W base(2) assms(2) ws(2), unfolded base(1) ws(1)]
  have out: "batch l = batch l1" "labels l = labels l1"
    using slide_frame [OF S] by simp_all
  show ?case
  proof (intro allI impI)
    fix i j li gi
    assume i: "i < Suc n" and j: "j < nat ns"
      and R: "run_groups smp ns sw span [0..<i] (l0, g0) = Inr (li, gi)"
    show "batch l ! (i * nat ns + j) = Some (buffer li ! nat sw) \<and>
          labels l ! (i * nat ns + j)
            = Some (buffer li ! nat (smp i (context_words span sw) (nat ns) ! j)) \<and>
          nat sw < length (buffer li) \<and>
          nat (smp i (context_words span sw) (nat ns) ! j) < length (buffer li) \<and>
          i * nat ns + j < length (batch l0)"
    proof (cases "i = n")
      case True
      then have li: "li = ln" using R A by simp
      have ne: "?ws \<noteq> []" using ws(1) j by auto
      have mem: "?ws ! j \<in> set ?ws" using ws(1) j by simp
      show ?thesis using E ne mem j out li True C by auto
    next
      case False
      then have lt: "i < n" using i by simp
      have "i * nat ns + j < n * nat ns" using lt j by (rule slot_less)
      then show ?thesis using IH lt j R E out by simp
    qed
  qed
qed

lemma generate_batch_run_Inr:
  assumes "generate_batch_run smp bs ns sw g = Inr (l, g')"
  obtains l0 g0 g1 where
    "enter bs ns sw g = Inr (l0, g0)"
    "run_groups smp ns sw (2 * sw + 1) [0..<nat (bs div ns)] (l0, g0) = Inr (l, g1)"
    "run_loop smp bs ns sw g = Inr (l, g1)"
    "length (data g1) \<noteq> 0"
    "g' = g1\<lparr>data_index :=
            (data_index g1 + int (length (data g1)) - (2 * sw + 1)) mod int (length (data g1))\<rparr>"
  using assms
  by (auto simp: generate_batch_run_def run_loop_def Let_def split: sum.splits prod.splits if_splits)

lemma generate_batch_Inr:
  "generate_batch smp bs ns sw g = (Inr (b, lb), g') \<longleftrightarrow>
     (\<exists>l. generate_batch_run smp bs ns sw g = Inr (l, g') \<and> b = batch l \<and> lb = labels l)"
  by (auto simp: generate_batch_def split: sum.splits prod.splits)

text \<open>What a call that returns has done, for a cursor that is not negative.\<close>

lemma success_facts:
  assumes run: "generate_batch_run smp bs ns sw g = Inr (l, g')"
    and di: "0 \<le> data_index g"
    and len: "2 * sw + 1 \<le> int (length (data g))"
  shows "0 \<le> sw" and "0 \<le> start_index sw g"
    and "start_index sw g + (2 * sw + 1) + int (nat (bs div ns)) \<le> int (length (data g))"
    and "run_loop smp bs ns sw g
           = Inr (l, g\<lparr>data_index := start_index sw g + (2 * sw + 1) + int (nat (bs div ns))\<rparr>)"
    and "g' = g\<lparr>data_index := start_index sw g + int (nat (bs div ns))\<rparr>"
    and "reads l = [start_index sw g..start_index sw g + (2 * sw + 1) - 1] @
                   map (\<lambda>i. start_index sw g + (2 * sw + 1) + int i) [0..<nat (bs div ns)]"
    and "buffer l = take (nat (2 * sw + 1))
                      (drop (nat (start_index sw g) + nat (bs div ns)) (data g))"
    and "length (batch l) = nat bs" and "length (labels l) = nat bs"
proof -
  let ?span = "2 * sw + 1" and ?n = "nat (bs div ns)" and ?s = "start_index sw g"
  from run obtain l0 g0 g1 where
    E: "enter bs ns sw g = Inr (l0, g0)" and
    R: "run_groups smp ns sw ?span [0..<?n] (l0, g0) = Inr (l, g1)" and
    L: "run_loop smp bs ns sw g = Inr (l, g1)" and
    N0: "length (data g1) \<noteq> 0" and
    G: "g' = g1\<lparr>data_index :=
            (data_index g1 + int (length (data g1)) - ?span) mod int (length (data g1))\<rparr>"
    by (rule generate_batch_run_Inr)
  note E' = enter_Inr [OF E]
  show sw0: "0 \<le> sw" using E'(5) by simp
  note B = enter_buffer [OF di len sw0]
  show s0: "0 \<le> ?s" by (rule B(1))
  have g0: "g0 = g\<lparr>data_index := ?s + ?span\<rparr>" by (rule E'(6))
  have di0: "0 \<le> data_index g0" using g0 s0 sw0 by simp
  note C = run_groups_cursor [OF R di0]
  have g1: "g1 = g\<lparr>data_index := ?s + ?span + int ?n\<rparr>" using C g0 by simp
  show bound: "?s + ?span + int ?n \<le> int (length (data g))"
  proof (cases "0 < ?n")
    case True
    then show ?thesis using C g0 by simp
  next
    case False
    then show ?thesis using B(2) by simp
  qed
  show "run_loop smp bs ns sw g = Inr (l, g\<lparr>data_index := ?s + ?span + int ?n\<rparr>)"
    using L g1 by simp
  have "?s + ?span + int ?n + int (length (data g)) - ?span
          = ?s + int ?n + int (length (data g))"
    by simp
  then have "(?s + ?span + int ?n + int (length (data g)) - ?span) mod int (length (data g))
          = (?s + int ?n) mod int (length (data g))"
    by (metis mod_add_self2)
  also have "\<dots> = ?s + int ?n"
    using s0 bound sw0 by (intro mod_pos_pos_trivial) auto
  finally show "g' = g\<lparr>data_index := ?s + int ?n\<rparr>"
    using G g1 by simp
  show "reads l = [?s..?s + ?span - 1] @ map (\<lambda>i. ?s + ?span + int i) [0..<?n]"
    using C E'(7) g0 by simp
  have b0: "buffer l0 = take (nat ?span) (drop (nat ?s) (data g0))"
    using E'(7) B(3) g0 by simp
  have "buffer l = take (nat ?span) (drop (nat ?s + ?n) (data g0))"
  proof (rule run_groups_buffer [OF R _ _ b0])
    show "0 < ?span" using sw0 by simp
    show "data_index g0 = int (nat ?s) + ?span" using g0 s0 by simp
  qed
  then show "buffer l = take (nat ?span) (drop (nat ?s + ?n) (data g))"
    using g0 by simp
  show "length (batch l) = nat bs" "length (labels l) = nat bs"
    using C E'(7) by simp_all
qed

lemma context_words_iff:
  "p \<in> set (context_words span sw) \<longleftrightarrow> 0 \<le> p \<and> p < span \<and> p \<noteq> sw"
  by (auto simp: context_words_def)

lemma draws_okD:
  assumes "draws_ok smp ns sw n" and "i < n"
  shows "length (smp i (context_words (2 * sw + 1) sw) (nat ns)) = nat ns"
    and "distinct (smp i (context_words (2 * sw + 1) sw) (nat ns))"
    and "\<forall>p\<in>set (smp i (context_words (2 * sw + 1) sw) (nat ns)). 0 \<le> p \<and> p < 2 * sw + 1 \<and> p \<noteq> sw"
  using assms
  by (auto simp: draws_ok_def valid_sample_def list_all_iff context_words_iff)

section \<open>The groups of a returned batch\<close>

text \<open>
  C2. Take a call that returns \<open>(batch, labels)\<close> and whose draws keep the contract of
  \<open>random.sample\<close>, and a group \<open>i\<close> below \<open>batch_size // num_skips\<close>. The call reached the
  start of group \<open>i\<close> with some window. The draw \<open>ws\<close> of the group has \<open>num_skips\<close>
  positions, no position twice, each one a window position other than the middle position
  \<open>skip_window\<close>. The \<open>num_skips\<close> slots of the group, \<open>i * num_skips + j\<close>, all hold the
  middle element of that window in \<open>batch\<close>, and the window elements at the drawn positions,
  in the order of the draw, in \<open>labels\<close>. When the cursor was not negative, that window is
  the corpus from position \<open>start_index + i\<close> on, \<open>span\<close> elements long.
\<close>

theorem group_structure:
  assumes G: "generate_batch smp bs ns sw g = (Inr (b, lb), g')"
    and D: "draws_ok smp ns sw (nat (bs div ns))"
    and I: "i < nat (bs div ns)"
  shows "\<exists>window.
           window_at smp bs ns sw g i = Some window \<and>
           (let ws = smp i (context_words (2 * sw + 1) sw) (nat ns) in
              length ws = nat ns \<and> distinct ws \<and>
              (\<forall>p\<in>set ws. 0 \<le> p \<and> p < 2 * sw + 1 \<and> p \<noteq> sw) \<and>
              nat sw < length window \<and>
              (\<forall>j<nat ns.
                 nat (ws ! j) < length window \<and>
                 b ! (i * nat ns + j) = Some (window ! nat sw) \<and>
                 lb ! (i * nat ns + j) = Some (window ! nat (ws ! j))) \<and>
              (0 \<le> data_index g \<longrightarrow>
                 window = take (nat (2 * sw + 1)) (drop (nat (start_index sw g) + i) (data g))))"
proof -
  let ?span = "2 * sw + 1" and ?n = "nat (bs div ns)" and ?s = "start_index sw g"
  let ?ws = "smp i (context_words ?span sw) (nat ns)"
  from G obtain l where run: "generate_batch_run smp bs ns sw g = Inr (l, g')"
    and b: "b = batch l" and lb: "lb = labels l"
    unfolding generate_batch_Inr by blast
  from run obtain l0 g0 g1 where
    E: "enter bs ns sw g = Inr (l0, g0)" and
    R: "run_groups smp ns sw ?span [0..<?n] (l0, g0) = Inr (l, g1)"
    by (rule generate_batch_run_Inr)
  note E' = enter_Inr [OF E]
  have sw0: "0 \<le> sw" using E'(5) by simp
  from run_groups_prefix [OF R] I obtain li gi where
    Ri: "run_groups smp ns sw ?span [0..<i] (l0, g0) = Inr (li, gi)"
    by (metis less_imp_le surj_pair)
  have W: "window_at smp bs ns sw g i = Some (buffer li)"
    using E Ri by (simp add: window_at_def)
  have ws: "length ?ws = nat ns" "distinct ?ws"
    "\<forall>p\<in>set ?ws. 0 \<le> p \<and> p < ?span \<and> p \<noteq> sw"
    using draws_okD [OF D I] by simp_all
  have draws: "\<forall>i<?n. length (smp i (context_words ?span sw) (nat ns)) = nat ns \<and>
                (\<forall>cw\<in>set (smp i (context_words ?span sw) (nat ns)). 0 \<le> cw)"
    using draws_okD [OF D] by blast
  note S = run_groups_slots [OF R sw0 draws, rule_format, OF I _ Ri]
  have slots: "\<forall>j<nat ns.
                 nat (?ws ! j) < length (buffer li) \<and>
                 b ! (i * nat ns + j) = Some (buffer li ! nat sw) \<and>
                 lb ! (i * nat ns + j) = Some (buffer li ! nat (?ws ! j))"
    using S b lb by simp
  have mid: "nat sw < length (buffer li)"
  proof -
    have "0 < ns"
    proof (rule ccontr)
      assume "\<not> 0 < ns"
      then have "ns < 0" using E'(1) by simp
      then have "bs div ns \<le> 0" using E'(4) by (rule div_nonneg_neg_le0 [rotated])
      then show False using I by simp
    qed
    then have "0 < nat ns" by simp
    then show ?thesis using S by blast
  qed
  have corpus: "buffer li = take (nat ?span) (drop (nat ?s + i) (data g))"
    if di: "0 \<le> data_index g"
  proof -
    have s0: "0 \<le> ?s" using di by (simp add: start_index_def)
    have g0: "g0 = g\<lparr>data_index := ?s + ?span\<rparr>" by (rule E'(6))
    have di0: "0 \<le> data_index g0" using g0 s0 sw0 by simp
    have npos: "0 < ?n" using I by simp
    have "?s + ?span + int ?n \<le> int (length (data g))"
      using run_groups_cursor [OF R di0] npos g0 by auto
    moreover have "0 \<le> int ?n" by (rule of_nat_0_le_iff)
    ultimately have len: "?span \<le> int (length (data g))" using s0 by linarith
    note B = enter_buffer [OF di len sw0]
    have b0: "buffer l0 = take (nat ?span) (drop (nat ?s) (data g0))"
      using E'(7) B(3) g0 by simp
    have "buffer li = take (nat ?span) (drop (nat ?s + i) (data g0))"
    proof (rule run_groups_buffer [OF Ri _ _ b0])
      show "0 < ?span" using sw0 by simp
      show "data_index g0 = int (nat ?s) + ?span" using g0 s0 by simp
    qed
    then show ?thesis using g0 by simp
  qed
  show ?thesis
    unfolding Let_def
    using W ws mid slots corpus by blast
qed

text \<open>
  The theorem at the third group of a call for four groups of two on a corpus of ten
  words: the window is \<open>[2, 0, 5]\<close>, the centre 0, the draw \<open>[0, 2]\<close>.
\<close>

theorem group_structure_witness:
  "generate_batch first_k 8 2 1 \<lparr>data = [5, 2, 2, 0, 5, 2, 7, 1, 3, 4], data_index = 0\<rparr>
     = (Inr ([Some 2, Some 2, Some 2, Some 2, Some 0, Some 0, Some 5, Some 5],
             [Some 5, Some 2, Some 2, Some 0, Some 2, Some 5, Some 0, Some 2]),
        \<lparr>data = [5, 2, 2, 0, 5, 2, 7, 1, 3, 4], data_index = 4\<rparr>) \<and>
   draws_ok first_k 2 1 (nat (8 div 2)) \<and> 2 < nat (8 div 2) \<and>
   window_at first_k 8 2 1 \<lparr>data = [5, 2, 2, 0, 5, 2, 7, 1, 3, 4], data_index = 0\<rparr> 2
     = Some [2, 0, 5] \<and>
   first_k 2 (context_words (2 * 1 + 1) 1) (nat 2) = [0, 2] \<and>
   [Some 2, Some 2, Some 2, Some 2, Some 0, Some 0, Some 5, Some (5::int)] ! (2 * nat 2 + 1)
     = Some ([2, 0, 5] ! nat 1) \<and>
   [Some 5, Some 2, Some 2, Some 0, Some 2, Some 5, Some 0, Some (2::int)] ! (2 * nat 2 + 1)
     = Some ([2, 0, 5] ! nat ([0, 2] ! 1))"
proof -
  let ?g = "\<lparr>data = [5, 2, 2, 0, 5, 2, 7, 1, 3, 4], data_index = 0\<rparr>"
  have h1: "generate_batch first_k 8 2 1 ?g
     = (Inr ([Some 2, Some 2, Some 2, Some 2, Some 0, Some 0, Some 5, Some 5],
             [Some 5, Some 2, Some 2, Some 0, Some 2, Some 5, Some 0, Some 2]),
        \<lparr>data = [5, 2, 2, 0, 5, 2, 7, 1, 3, 4], data_index = 4\<rparr>)"
    by code_simp
  have h2: "draws_ok first_k 2 1 (nat (8 div 2))" by code_simp
  have h3: "2 < nat (8 div 2)" by simp
  have ws: "first_k 2 (context_words (2 * 1 + 1) 1) (nat 2) = [0, 2]" by code_simp
  from group_structure [OF h1 h2 h3] obtain window where
    w: "window_at first_k 8 2 1 ?g 2 = Some window" and
    c: "\<forall>j<nat 2.
          [Some 2, Some 2, Some 2, Some 2, Some 0, Some 0, Some 5, Some (5::int)] ! (2 * nat 2 + j)
            = Some (window ! nat 1) \<and>
          [Some 5, Some 2, Some 2, Some 0, Some 2, Some 5, Some 0, Some (2::int)] ! (2 * nat 2 + j)
            = Some (window ! nat (first_k 2 (context_words (2 * 1 + 1) 1) (nat 2) ! j))" and
    v: "0 \<le> data_index ?g \<longrightarrow>
          window = take (nat (2 * 1 + 1)) (drop (nat (start_index 1 ?g) + 2) (data ?g))"
    unfolding Let_def by blast
  have "window = [2, 0, 5]" using v by (simp add: start_index_def)
  moreover have "(1::nat) < nat 2" by simp
  ultimately show ?thesis using h1 h2 h3 w c ws by metis
qed

section \<open>Determinism for given draws\<close>

lemma run_groups_same_draws:
  assumes "\<forall>i\<in>set is. smp1 i (context_words span sw) (nat ns) = smp2 i (context_words span sw) (nat ns)"
  shows "run_groups smp1 ns sw span is lg = run_groups smp2 ns sw span is lg"
  using assms
proof (induction "is" arbitrary: lg)
  case Nil
  then show ?case by simp
next
  case (Cons i "is")
  have "group_body smp1 ns sw span i lg = group_body smp2 ns sw span i lg"
    using Cons.prems by (simp add: group_body_def random_sample_def)
  then show ?case using Cons by (simp split: sum.splits)
qed

text \<open>
  C9. Two calls with the same arguments, from states with the same corpus and the same
  cursor, and with sources of randomness that give the same draws to the groups of the
  call: both calls return the same \<open>(batch, labels)\<close> or raise the same exception, and both
  leave the same globals. Nothing else enters the result.
\<close>

theorem same_state_same_draws_same_result:
  assumes "data g1 = data g2" and "data_index g1 = data_index g2"
    and "\<forall>i<nat (bs div ns).
           smp1 i (context_words (2 * sw + 1) sw) (nat ns)
             = smp2 i (context_words (2 * sw + 1) sw) (nat ns)"
  shows "generate_batch smp1 bs ns sw g1 = generate_batch smp2 bs ns sw g2"
proof -
  have g: "g1 = g2" using assms(1,2) by simp
  have "run_groups smp1 ns sw (2 * sw + 1) [0..<nat (bs div ns)] lg
          = run_groups smp2 ns sw (2 * sw + 1) [0..<nat (bs div ns)] lg" for lg
    using assms(3) by (intro run_groups_same_draws) simp
  then have "run_loop smp1 bs ns sw g2 = run_loop smp2 bs ns sw g2"
    by (simp add: run_loop_def split: sum.splits)
  then show ?thesis
    using g by (simp add: generate_batch_def generate_batch_run_def)
qed

text \<open>
  Two sources that agree on the two draws a call for two groups makes, and on no later
  draw.
\<close>

theorem same_state_same_draws_same_result_witness:
  "generate_batch first_k 4 2 1 \<lparr>data = [5, 2, 2, 0, 5, 2, 7], data_index = 1\<rparr>
     = generate_batch (\<lambda>i population k. if i < 2 then take k population else rev population)
         4 2 1 \<lparr>data = [5, 2, 2, 0, 5, 2, 7], data_index = 1\<rparr>"
proof (rule same_state_same_draws_same_result)
  show "\<forall>i<nat (4 div 2).
           first_k i (context_words (2 * 1 + 1) 1) (nat 2)
             = (if i < 2 then take (nat 2) (context_words (2 * 1 + 1) 1)
                else rev (context_words (2 * 1 + 1) 1))"
    by (simp add: first_k_def)
qed simp_all



section \<open>Bounds of the cursor and of the corpus reads\<close>

lemma call_in_bounds:
  assumes run: "generate_batch_run smp bs ns sw g = Inr (l, g')"
    and di: "0 \<le> data_index g"
    and len: "2 * sw + 1 \<le> int (length (data g))"
  shows "cursor_ok g'" and "data g' = data g"
    and "\<forall>k\<in>set (reads l). 0 \<le> k \<and> k < int (length (data g))"
proof -
  note F = success_facts [OF run di len]
  show "cursor_ok g'" using F(1,2,3,5) by (simp add: cursor_ok_def)
  show "data g' = data g" using F(5) by simp
  show "\<forall>k\<in>set (reads l). 0 \<le> k \<and> k < int (length (data g))"
    using F(1,2,3) unfolding F(6) by (auto split: if_splits)
qed

text \<open>
  C10. A series of calls that all return, from a state whose cursor is a position of the
  corpus, each call with a \<open>span\<close> no longer than the corpus: every corpus index that any of
  the calls asks for is a position of the corpus, the corpus is unchanged, and the cursor
  is a position of the corpus again at the end. (A call that returns has passed both
  assertions.)
\<close>

theorem cursor_and_reads_stay_in_bounds:
  assumes "cursor_ok g"
    and "\<forall>c\<in>set cs. case c of (smp, bs, ns, sw) \<Rightarrow> 2 * sw + 1 \<le> int (length (data g))"
    and "run_calls cs g = Inr (ls, g')"
  shows "cursor_ok g' \<and> data g' = data g \<and>
         (\<forall>l\<in>set ls. \<forall>k\<in>set (reads l). 0 \<le> k \<and> k < int (length (data g)))"
  using assms
proof (induction cs arbitrary: g ls)
  case Nil
  then show ?case by simp
next
  case (Cons c cs)
  obtain smp bs ns sw where c: "c = (smp, bs, ns, sw)" by (cases c) auto
  from Cons.prems(3) c obtain l g1 ls' where
    run: "generate_batch_run smp bs ns sw g = Inr (l, g1)" and
    rest: "run_calls cs g1 = Inr (ls', g')" and ls: "ls = l # ls'"
    by (auto split: sum.splits prod.splits)
  have di: "0 \<le> data_index g" using Cons.prems(1) by (simp add: cursor_ok_def)
  have len: "2 * sw + 1 \<le> int (length (data g))" using Cons.prems(2) c by simp
  note B = call_in_bounds [OF run di len]
  have "cursor_ok g' \<and> data g' = data g1 \<and>
         (\<forall>l\<in>set ls'. \<forall>k\<in>set (reads l). 0 \<le> k \<and> k < int (length (data g1)))"
    using Cons.prems(2) B(2) by (intro Cons.IH [OF B(1) _ rest]) simp
  then show ?case using B ls by simp
qed

text \<open>Two calls in a row on a corpus of ten words.\<close>

theorem cursor_and_reads_stay_in_bounds_witness:
  "cursor_ok \<lparr>data = [5, 2, 2, 0, 5, 2, 7, 1, 3, 4], data_index = 0\<rparr> \<and>
   run_calls [(first_k, 4, 2, 1), (first_k, 6, 2, 1)]
       \<lparr>data = [5, 2, 2, 0, 5, 2, 7, 1, 3, 4], data_index = 0\<rparr>
     = Inr ([\<lparr>buffer = [2, 0, 5], batch = [Some 2, Some 2, Some 2, Some 2],
              labels = [Some 5, Some 2, Some 2, Some 0], reads = [0, 1, 2, 3, 4]\<rparr>,
             \<lparr>buffer = [2, 7, 1], batch = [Some 0, Some 0, Some 5, Some 5, Some 2, Some 2],
              labels = [Some 2, Some 5, Some 0, Some 2, Some 5, Some 7],
              reads = [2, 3, 4, 5, 6, 7]\<rparr>],
            \<lparr>data = [5, 2, 2, 0, 5, 2, 7, 1, 3, 4], data_index = 5\<rparr>) \<and>
   cursor_ok \<lparr>data = [5, 2, 2, 0, 5, 2, 7, 1, 3, 4], data_index = 5\<rparr>"
proof -
  let ?g = "\<lparr>data = [5, 2, 2, 0, 5, 2, 7, 1, 3, 4], data_index = 0\<rparr>"
  let ?cs = "[(first_k, 4, 2, 1), (first_k, 6, 2, 1)]"
  have h1: "cursor_ok ?g" by (simp add: cursor_ok_def)
  have h2: "\<forall>c\<in>set ?cs. case c of (smp, bs, ns, sw) \<Rightarrow> 2 * sw + 1 \<le> int (length (data ?g))"
    by simp
  have h3: "run_calls ?cs ?g
     = Inr ([\<lparr>buffer = [2, 0, 5], batch = [Some 2, Some 2, Some 2, Some 2],
              labels = [Some 5, Some 2, Some 2, Some 0], reads = [0, 1, 2, 3, 4]\<rparr>,
             \<lparr>buffer = [2, 7, 1], batch = [Some 0, Some 0, Some 5, Some 5, Some 2, Some 2],
              labels = [Some 2, Some 5, Some 0, Some 2, Some 5, Some 7],
              reads = [2, 3, 4, 5, 6, 7]\<rparr>],
            \<lparr>data = [5, 2, 2, 0, 5, 2, 7, 1, 3, 4], data_index = 5\<rparr>)"
    by code_simp
  show ?thesis using cursor_and_reads_stay_in_bounds [OF h1 h2 h3] h1 h3 by blast
qed

section \<open>The cursor at the end of a call\<close>

lemma window_at_corpus:
  assumes run: "generate_batch_run smp bs ns sw g = Inr (l, g')"
    and di: "0 \<le> data_index g"
    and len: "2 * sw + 1 \<le> int (length (data g))"
    and i: "i \<le> nat (bs div ns)"
  shows "window_at smp bs ns sw g i
           = Some (take (nat (2 * sw + 1)) (drop (nat (start_index sw g) + i) (data g)))"
proof -
  let ?span = "2 * sw + 1" and ?n = "nat (bs div ns)" and ?s = "start_index sw g"
  from run obtain l0 g0 g1 where
    E: "enter bs ns sw g = Inr (l0, g0)" and
    R: "run_groups smp ns sw ?span [0..<?n] (l0, g0) = Inr (l, g1)"
    by (rule generate_batch_run_Inr)
  note E' = enter_Inr [OF E]
  have sw0: "0 \<le> sw" using E'(5) by simp
  note B = enter_buffer [OF di len sw0]
  have g0: "g0 = g\<lparr>data_index := ?s + ?span\<rparr>" by (rule E'(6))
  from run_groups_prefix [OF R i] obtain li gi where
    Ri: "run_groups smp ns sw ?span [0..<i] (l0, g0) = Inr (li, gi)"
    by (metis surj_pair)
  have b0: "buffer l0 = take (nat ?span) (drop (nat ?s) (data g0))"
    using E'(7) B(3) g0 by simp
  have "buffer li = take (nat ?span) (drop (nat ?s + i) (data g0))"
  proof (rule run_groups_buffer [OF Ri _ _ b0])
    show "0 < ?span" using sw0 by simp
    show "data_index g0 = int (nat ?s) + ?span" using g0 B(1) by simp
  qed
  then show ?thesis using E Ri g0 by (simp add: window_at_def)
qed

text \<open>
  C4, as the code has it. A call that returns, from a cursor that is not negative and on a
  corpus no shorter than \<open>span\<close>, moves the cursor back by \<open>span\<close> positions (not by
  \<open>span - 1\<close>) from its value after the last group, modulo the corpus length. The cursor
  then is \<open>start_index\<close> plus the number of groups. The next call with the same
  \<open>skip_window\<close> loads as its first window the window this call ended with, which no group
  has used yet; it is the window of the last group moved on by one corpus position, so the
  two overlap in \<open>span - 1\<close> elements and no centre position is left out between them.
\<close>

theorem rewind_is_by_span:
  assumes run: "generate_batch_run smp bs ns sw g = Inr (l, g')"
    and di: "0 \<le> data_index g"
    and len: "2 * sw + 1 \<le> int (length (data g))"
  shows "\<exists>g1. run_loop smp bs ns sw g = Inr (l, g1) \<and>
           data_index g' = (data_index g1 + int (length (data g1)) - (2 * sw + 1))
                             mod int (length (data g1)) \<and>
           data_index g' = data_index g1 - (2 * sw + 1) \<and>
           data_index g' = start_index sw g + int (nat (bs div ns)) \<and>
           buffer l = take (nat (2 * sw + 1)) (drop (nat (data_index g')) (data g)) \<and>
           (\<forall>bs2 ns2 l2 g2. enter bs2 ns2 sw g' = Inr (l2, g2) \<longrightarrow> buffer l2 = buffer l) \<and>
           (0 < nat (bs div ns) \<longrightarrow>
              window_at smp bs ns sw g (nat (bs div ns) - 1)
                = Some (take (nat (2 * sw + 1)) (drop (nat (data_index g') - 1) (data g))))"
proof -
  let ?span = "2 * sw + 1" and ?n = "nat (bs div ns)" and ?s = "start_index sw g"
  let ?g1 = "g\<lparr>data_index := ?s + ?span + int ?n\<rparr>"
  note F = success_facts [OF run di len]
  have L: "run_loop smp bs ns sw g = Inr (l, ?g1)" by (rule F(4))
  have g': "data_index g' = ?s + int ?n" "data g' = data g" using F(5) by simp_all
  have pos: "nat (data_index g') = nat ?s + ?n"
    using g'(1) F(2) by (simp add: nat_add_distrib)
  have m: "data_index g' = (data_index ?g1 + int (length (data ?g1)) - ?span)
                             mod int (length (data ?g1))"
  proof -
    from run obtain g1 where "run_loop smp bs ns sw g = Inr (l, g1)"
      and "g' = g1\<lparr>data_index :=
            (data_index g1 + int (length (data g1)) - ?span) mod int (length (data g1))\<rparr>"
      by (rule generate_batch_run_Inr)
    then show ?thesis using L by simp
  qed
  have b: "buffer l = take (nat ?span) (drop (nat (data_index g')) (data g))"
    using F(7) pos by simp
  have nxt: "buffer l2 = buffer l" if E2: "enter bs2 ns2 sw g' = Inr (l2, g2)" for bs2 ns2 l2 g2
  proof -
    have di': "0 \<le> data_index g'" using g'(1) F(2) by simp
    have len': "?span \<le> int (length (data g'))" using len g'(2) by simp
    have fit: "data_index g' + ?span \<le> int (length (data g'))"
      using F(3) g' by simp
    then have st: "start_index sw g' = data_index g'" by (simp add: start_index_def)
    have "buffer l2 = take (nat ?span) (drop (nat (start_index sw g')) (data g'))"
      using enter_Inr(7) [OF E2] enter_buffer(3) [OF di' len' F(1)] by simp
    then show ?thesis using st b g'(2) by simp
  qed
  have last: "window_at smp bs ns sw g (?n - 1)
                = Some (take (nat ?span) (drop (nat (data_index g') - 1) (data g)))"
    if "0 < ?n"
  proof -
    have "nat ?s + (?n - 1) = nat (data_index g') - 1" using pos that by simp
    then show ?thesis
      using window_at_corpus [OF run di len, of "?n - 1"] by simp
  qed
  show ?thesis
    using L m g' b nxt last by (intro exI [of _ ?g1]) simp
qed

text \<open>
  A call for two groups from cursor 2: the loop ends with the cursor at 7, the call with
  the cursor at 4; the last group had the window \<open>[0, 5, 2]\<close> and the next call starts with
  \<open>[5, 2, 7]\<close>.
\<close>

theorem rewind_is_by_span_witness:
  "map_sum snd snd (generate_batch_run first_k 4 2 1
       \<lparr>data = [5, 2, 2, 0, 5, 2, 7, 1, 3, 4], data_index = 2\<rparr>)
     = Inr \<lparr>data = [5, 2, 2, 0, 5, 2, 7, 1, 3, 4], data_index = 4\<rparr> \<and>
   map_sum snd snd (run_loop first_k 4 2 1
       \<lparr>data = [5, 2, 2, 0, 5, 2, 7, 1, 3, 4], data_index = 2\<rparr>)
     = Inr \<lparr>data = [5, 2, 2, 0, 5, 2, 7, 1, 3, 4], data_index = 7\<rparr> \<and>
   (4::int) = 7 - (2 * 1 + 1) \<and>
   window_at first_k 4 2 1 \<lparr>data = [5, 2, 2, 0, 5, 2, 7, 1, 3, 4], data_index = 2\<rparr>
       (nat (4 div 2) - 1) = Some [0, 5, 2] \<and>
   window_at first_k 4 2 1 \<lparr>data = [5, 2, 2, 0, 5, 2, 7, 1, 3, 4], data_index = 4\<rparr> 0
     = Some [5, 2, 7]"
proof -
  let ?g = "\<lparr>data = [5, 2, 2, 0, 5, 2, 7, 1, 3, 4], data_index = 2\<rparr>"
  let ?l = "\<lparr>buffer = [5, 2, 7], batch = [Some 0, Some 0, Some 5, Some 5],
            labels = [Some 2, Some 5, Some 0, Some 2], reads = [2, 3, 4, 5, 6]\<rparr>"
  let ?g' = "\<lparr>data = [5, 2, 2, 0, 5, 2, 7, 1, 3, 4], data_index = 4\<rparr>"
  have h1: "generate_batch_run first_k 4 2 1 ?g = Inr (?l, ?g')" by code_simp
  have h2: "0 \<le> data_index ?g" by simp
  have h3: "2 * 1 + 1 \<le> int (length (data ?g))" by simp
  have d: "window_at first_k 4 2 1 ?g' 0 = Some [5, 2, 7]" by code_simp
  have e: "run_loop first_k 4 2 1 ?g
             = Inr (?l, \<lparr>data = [5, 2, 2, 0, 5, 2, 7, 1, 3, 4], data_index = 7\<rparr>)"
    by code_simp
  show ?thesis using rewind_is_by_span [OF h1 h2 h3] h1 d e by auto
qed

text \<open>
  C4 as stated fails on a corpus of ten words with one group: the loop ends with the
  cursor at 4, and the call leaves it at 1, which is \<open>4 - span\<close>; going back by
  \<open>span - 1 = 2\<close> would give 2.
\<close>

theorem rewind_is_not_by_span_minus_one:
  "map_sum snd snd (run_loop first_k 2 2 1
       \<lparr>data = [0, 1, 2, 3, 4, 5, 6, 7, 8, 9], data_index = 0\<rparr>)
     = Inr \<lparr>data = [0, 1, 2, 3, 4, 5, 6, 7, 8, 9], data_index = 4\<rparr> \<and>
   snd (generate_batch first_k 2 2 1 \<lparr>data = [0, 1, 2, 3, 4, 5, 6, 7, 8, 9], data_index = 0\<rparr>)
     = \<lparr>data = [0, 1, 2, 3, 4, 5, 6, 7, 8, 9], data_index = 1\<rparr> \<and>
   (1::int) \<noteq> (4 + 10 - ((2 * 1 + 1) - 1)) mod 10"
  by code_simp

section \<open>Failing calls and returned batches\<close>

lemma assertions_fail_fast:
  assumes "ns = 0 \<or> bs mod ns \<noteq> 0 \<or> 2 * sw < ns"
  shows "generate_batch smp bs ns sw g
           = (Inl (if ns = 0 then ZeroDivisionError else AssertionError), g)"
  using assms
  by (auto simp: generate_batch_def generate_batch_run_def run_loop_def enter_def)

lemma returned_batch_is_full:
  assumes G: "generate_batch smp bs ns sw g = (Inr (b, lb), g')"
    and ns: "0 < ns"
    and D: "draws_ok smp ns sw (nat (bs div ns))"
  shows "length b = nat bs" and "length lb = nat bs"
    and "list_all (\<lambda>x. x \<noteq> None) b" and "list_all (\<lambda>x. x \<noteq> None) lb"
proof -
  let ?span = "2 * sw + 1" and ?n = "nat (bs div ns)"
  from G obtain l where run: "generate_batch_run smp bs ns sw g = Inr (l, g')"
    and b: "b = batch l" and lb: "lb = labels l"
    unfolding generate_batch_Inr by blast
  from run obtain l0 g0 g1 where
    E: "enter bs ns sw g = Inr (l0, g0)" and
    R: "run_groups smp ns sw ?span [0..<?n] (l0, g0) = Inr (l, g1)"
    by (rule generate_batch_run_Inr)
  note E' = enter_Inr [OF E]
  have sw0: "0 \<le> sw" using E'(5) by simp
  show lenb: "length b = nat bs" and lenl: "length lb = nat bs"
    using run_groups_frame [OF R] E'(7) b lb by simp_all
  have "bs = (bs div ns) * ns" using E'(2) div_mult_mod_eq [of bs ns] by simp
  then have "nat bs = nat ((bs div ns) * ns)" by simp
  also have "\<dots> = ?n * nat ns"
    using ns E'(4) by (simp add: nat_mult_distrib pos_imp_zdiv_nonneg_iff)
  finally have size: "nat bs = ?n * nat ns" .
  have draws: "\<forall>i<?n. length (smp i (context_words ?span sw) (nat ns)) = nat ns \<and>
                (\<forall>cw\<in>set (smp i (context_words ?span sw) (nat ns)). 0 \<le> cw)"
    using draws_okD [OF D] by blast
  have slot: "b ! k \<noteq> None \<and> lb ! k \<noteq> None" if k: "k < nat bs" for k
  proof -
    let ?i = "k div nat ns" and ?j = "k mod nat ns"
    have i: "?i < ?n" using k size ns
      by (simp add: less_mult_imp_div_less)
    have j: "?j < nat ns" using ns by simp
    from run_groups_prefix [OF R] i obtain li gi where
      Ri: "run_groups smp ns sw ?span [0..<?i] (l0, g0) = Inr (li, gi)"
      by (metis less_imp_le surj_pair)
    note S = run_groups_slots [OF R sw0 draws, rule_format, OF i j Ri]
    have "?i * nat ns + ?j = k" by simp
    then show ?thesis using S b lb by simp
  qed
  show "list_all (\<lambda>x. x \<noteq> None) b" "list_all (\<lambda>x. x \<noteq> None) lb"
    using slot lenb lenl by (simp_all add: list_all_length)
qed

text \<open>
  C5, as the code has it. A call whose \<open>batch_size\<close> is not a multiple of \<open>num_skips\<close>, or
  whose \<open>num_skips\<close> exceeds \<open>2 * skip_window\<close>, raises AssertionError (ZeroDivisionError
  when \<open>num_skips\<close> is 0) and leaves the globals as they were: no parameter is adjusted.
  A call with a positive \<open>num_skips\<close> that returns, its draws keeping the contract of
  \<open>random.sample\<close>, returns two arrays of length \<open>batch_size\<close> with every cell written.
  The length of the corpus is not checked.
\<close>

theorem fails_fast_or_fills_batch:
  "(ns = 0 \<or> bs mod ns \<noteq> 0 \<or> 2 * sw < ns \<longrightarrow>
      generate_batch smp bs ns sw g
        = (Inl (if ns = 0 then ZeroDivisionError else AssertionError), g)) \<and>
   (0 < ns \<and> draws_ok smp ns sw (nat (bs div ns)) \<and>
    generate_batch smp bs ns sw g = (Inr (b, lb), g') \<longrightarrow>
      length b = nat bs \<and> length lb = nat bs \<and>
      list_all (\<lambda>x. x \<noteq> None) b \<and> list_all (\<lambda>x. x \<noteq> None) lb)"
  using assertions_fail_fast [of ns bs sw smp g] returned_batch_is_full [of smp bs ns sw g b lb g']
  by blast

text \<open>
  The two failing configurations the specification names, \<open>(7, 2, 1)\<close> and \<open>(10, 5, 1)\<close>
  with \<open>num_skips = 5 > 2\<close>, and a call that returns.
\<close>

theorem fails_fast_or_fills_batch_witness:
  "generate_batch first_k 7 2 1 \<lparr>data = [5, 2, 2, 0, 5, 2, 7], data_index = 2\<rparr>
     = (Inl AssertionError, \<lparr>data = [5, 2, 2, 0, 5, 2, 7], data_index = 2\<rparr>) \<and>
   generate_batch first_k 10 5 1 \<lparr>data = [5, 2, 2, 0, 5, 2, 7], data_index = 2\<rparr>
     = (Inl AssertionError, \<lparr>data = [5, 2, 2, 0, 5, 2, 7], data_index = 2\<rparr>) \<and>
   generate_batch first_k 4 2 1 \<lparr>data = [5, 2, 2, 0, 5, 2, 7], data_index = 2\<rparr>
     = (Inr ([Some 0, Some 0, Some 5, Some 5], [Some 2, Some 5, Some 0, Some 2]),
        \<lparr>data = [5, 2, 2, 0, 5, 2, 7], data_index = 4\<rparr>) \<and>
   list_all (\<lambda>x. x \<noteq> None) [Some 0, Some 0, Some 5, Some (5::int)] \<and>
   list_all (\<lambda>x. x \<noteq> None) [Some 2, Some 5, Some 0, Some (2::int)]"
proof -
  let ?g = "\<lparr>data = [5, 2, 2, 0, 5, 2, 7], data_index = 2\<rparr>"
  have a: "(7::int) mod 2 \<noteq> 0" by simp
  have b: "2 * 1 < (5::int)" by simp
  have c: "generate_batch first_k 4 2 1 ?g
     = (Inr ([Some 0, Some 0, Some 5, Some 5], [Some 2, Some 5, Some 0, Some 2]),
        \<lparr>data = [5, 2, 2, 0, 5, 2, 7], data_index = 4\<rparr>)"
    by code_simp
  have d: "draws_ok first_k 2 1 (nat (4 div 2))" by code_simp
  have e: "(0::int) < 2" by simp
  have f1: "generate_batch first_k 7 2 1 ?g = (Inl AssertionError, ?g)"
    using fails_fast_or_fills_batch [of 2 7 1 first_k ?g] a by simp
  have f2: "generate_batch first_k 10 5 1 ?g = (Inl AssertionError, ?g)"
    using fails_fast_or_fills_batch [of 5 10 1 first_k ?g] b by simp
  have f3: "list_all (\<lambda>x. x \<noteq> None) [Some 0, Some 0, Some 5, Some (5::int)] \<and>
            list_all (\<lambda>x. x \<noteq> None) [Some 2, Some 5, Some 0, Some (2::int)]"
    using fails_fast_or_fills_batch [of 2 4 1 first_k ?g
        "[Some 0, Some 0, Some 5, Some 5]" "[Some 2, Some 5, Some 0, Some 2]"
        "\<lparr>data = [5, 2, 2, 0, 5, 2, 7], data_index = 4\<rparr>"] c d e
    by blast
  show ?thesis using f1 f2 f3 c by blast
qed

text \<open>
  C5 as stated fails on a corpus shorter than \<open>span\<close>: the call resets and advances the
  cursor, from 0 to 3, and then raises IndexError when the loop reads \<open>data[3]\<close>.
\<close>

theorem short_corpus_moves_cursor_before_failing:
  "generate_batch first_k 2 2 1 \<lparr>data = [1, 2], data_index = 0\<rparr>
     = (Inl IndexError, \<lparr>data = [1, 2], data_index = 3\<rparr>) \<and>
   snd (generate_batch first_k 2 2 1 \<lparr>data = [1, 2], data_index = 0\<rparr>)
     \<noteq> \<lparr>data = [1, 2], data_index = 0\<rparr>"
  by code_simp

section \<open>Facts about dicts, counters and the vocabulary\<close>

lemma map_of_dict_set: "map_of (dict_set d k v) = (map_of d)(k \<mapsto> v)"
  by (induction d k v rule: dict_set.induct) auto

lemma keys_dict_set: "map fst (dict_set d k v) = (if k \<in> set (map fst d) then map fst d else map fst d @ [k])"
  by (induction d k v rule: dict_set.induct) auto

lemma length_dict_set: "length d \<le> length (dict_set d k v)"
  by (induction d k v rule: dict_set.induct) auto

lemma rank_words_Cons:
  "rank_words d (wc # count) = rank_words (dict_set d (fst wc) (int (length d))) count"
  by (simp add: rank_words_def)

lemma rank_words_lookup:
  "(w \<in> fst ` set count \<longrightarrow> (\<exists>r. map_of (rank_words d count) w = Some r \<and> int (length d) \<le> r)) \<and>
   (w \<notin> fst ` set count \<longrightarrow> map_of (rank_words d count) w = map_of d w)"
proof (induction count arbitrary: d)
  case Nil
  then show ?case by (simp add: rank_words_def)
next
  case (Cons wc count)
  let ?d = "dict_set d (fst wc) (int (length d))"
  note IH = Cons.IH [of ?d]
  have len: "int (length d) \<le> int (length ?d)" using length_dict_set [of d] by simp
  show ?case
  proof (cases "w \<in> fst ` set count")
    case True
    then show ?thesis using IH len unfolding rank_words_Cons by auto
  next
    case False
    then show ?thesis using IH unfolding rank_words_Cons
      by (auto simp: map_of_dict_set)
  qed
qed

lemma encode_words_foldl:
  "foldl (\<lambda>du word.
              let index = dict_get dictionary word 0
              in (fst du @ [index], if index = 0 then snd du + 1 else snd du))
           (acc, n) words
     = (acc @ map (\<lambda>w. dict_get dictionary w 0) words,
        n + int (length (filter (\<lambda>w. dict_get dictionary w 0 = 0) words)))"
  by (induction words arbitrary: acc n) (simp_all add: Let_def)

lemma encode_words_eq:
  "encode_words dictionary words
     = (map (\<lambda>w. dict_get dictionary w 0) words,
        int (length (filter (\<lambda>w. dict_get dictionary w (0::int) = 0) words)))"
  unfolding encode_words_def encode_words_foldl by simp

lemma dictionary_lookup:
  fixes words n_words
  defines "dictionary \<equiv> rank_words [] ((''UNK'', - 1) # most_common (counter words) (n_words - 1))"
  shows "w \<in> set (top_words words n_words) \<Longrightarrow> \<exists>r. map_of dictionary w = Some r \<and> 1 \<le> r"
    and "w \<notin> set (top_words words n_words) \<Longrightarrow> dict_get dictionary w 0 = 0"
proof -
  let ?mc = "most_common (counter words) (n_words - 1)"
  have d: "dictionary = rank_words [(''UNK'', 0)] ?mc"
    unfolding dictionary_def rank_words_Cons by simp
  note L = rank_words_lookup [of w ?mc "[(''UNK'', 0)]"]
  show "\<exists>r. map_of dictionary w = Some r \<and> 1 \<le> r" if "w \<in> set (top_words words n_words)"
    using that L unfolding d top_words_def by auto
  show "dict_get dictionary w 0 = 0" if "w \<notin> set (top_words words n_words)"
    using that L unfolding d top_words_def by (auto simp: dict_get_def)
qed


lemma dict_get_dict_set:
  "dict_get (dict_set d k v) w dflt = (if w = k then v else dict_get d w dflt)"
  by (simp add: dict_get_def map_of_dict_set)

lemma counter_foldl:
  fixes c :: "('a \<times> int) list"
  shows "map_of (foldl (\<lambda>c w. dict_set c w (dict_get c w 0 + 1)) c ws) w
     = (if w \<in> set ws \<or> w \<in> set (map fst c)
        then Some (dict_get c w 0 + int (count_list ws w)) else None)"
proof (induction ws arbitrary: c)
  case Nil
  then show ?case
    by (auto simp: dict_get_def map_of_eq_None_iff split: option.splits)
next
  case (Cons x ws)
  show ?case
    unfolding foldl_Cons Cons.IH
    by (auto simp: dict_get_dict_set keys_dict_set)
qed

lemma counter_keys:
  fixes c :: "('a \<times> int) list"
  shows "distinct (map fst c) \<Longrightarrow>
     distinct (map fst (foldl (\<lambda>c w. dict_set c w (dict_get c w 0 + 1)) c ws)) \<and>
     set (map fst (foldl (\<lambda>c w. dict_set c w (dict_get c w 0 + 1)) c ws)) = set (map fst c) \<union> set ws"
proof (induction ws arbitrary: c)
  case Nil
  then show ?case by simp
next
  case (Cons x ws)
  have "distinct (map fst (dict_set c x (dict_get c x 0 + 1)))"
    using Cons.prems by (simp add: keys_dict_set)
  from Cons.IH [OF this] show ?case
    by (auto simp: keys_dict_set split: if_splits)
qed

lemma counter_facts:
  shows "distinct (map fst (counter ws))"
    and "set (map fst (counter ws)) = set ws"
    and "(w, c) \<in> set (counter ws) \<longleftrightarrow> w \<in> set ws \<and> c = int (count_list ws w)"
proof -
  show d: "distinct (map fst (counter ws))" and "set (map fst (counter ws)) = set ws"
    using counter_keys [of "[]" ws] by (auto simp: counter_def)
  have "map_of (counter ws) w = (if w \<in> set ws then Some (int (count_list ws w)) else None)"
    unfolding counter_def counter_foldl by (simp add: dict_get_def)
  then show "(w, c) \<in> set (counter ws) \<longleftrightarrow> w \<in> set ws \<and> c = int (count_list ws w)"
    using map_of_eq_Some_iff [OF d, of w c] by (auto split: if_splits)
qed

lemma sorted_take_drop:
  assumes "sorted (map f ys)" and "x \<in> set (take n ys)" and "y \<in> set (drop n ys)"
  shows "f x \<le> f y"
proof -
  have "sorted (map f (take n ys) @ map f (drop n ys))"
    using assms(1) by (metis append_take_drop_id map_append)
  then show ?thesis using assms(2,3) by (auto simp: sorted_append)
qed

lemma most_common_facts:
  assumes "distinct (map fst c)"
  shows "distinct (map fst (most_common c n))"
    and "set (most_common c n) \<subseteq> set c"
    and "length (most_common c n) = min (nat n) (length c)"
    and "x \<in> set (most_common c n) \<Longrightarrow> y \<in> set c \<Longrightarrow> y \<notin> set (most_common c n)
           \<Longrightarrow> snd y \<le> snd x"
proof -
  let ?s = "sort_key (\<lambda>kv. - snd kv) c"
  have "distinct (map fst ?s)"
    using assms by (simp add: distinct_map)
  then show "distinct (map fst (most_common c n))"
    unfolding most_common_def by (simp add: take_map [symmetric] del: take_map)
  show "set (most_common c n) \<subseteq> set c"
    unfolding most_common_def using set_take_subset [of "nat n" ?s] by simp
  show "length (most_common c n) = min (nat n) (length c)"
    unfolding most_common_def by (simp add: min.commute)
  show "snd y \<le> snd x"
    if x: "x \<in> set (most_common c n)" and y: "y \<in> set c" "y \<notin> set (most_common c n)"
  proof -
    have "y \<in> set (take (nat n) ?s) \<union> set (drop (nat n) ?s)"
      using y(1) by (metis append_take_drop_id set_append set_sort)
    then have "y \<in> set (drop (nat n) ?s)" using y(2) by (simp add: most_common_def)
    moreover have "sorted (map (\<lambda>kv. - snd kv) ?s)" by simp
    ultimately have "- snd x \<le> - snd y"
      using x unfolding most_common_def by (intro sorted_take_drop [where f = "\<lambda>kv. - snd kv"]) auto
    then show ?thesis by simp
  qed
qed

lemma top_words_facts:
  shows "distinct (top_words words n_words)"
    and "set (top_words words n_words) \<subseteq> set words"
    and "length (top_words words n_words) = min (nat (n_words - 1)) (card (set words))"
    and "(w, c) \<in> set (most_common (counter words) (n_words - 1)) \<Longrightarrow> c = int (count_list words w)"
    and "w \<in> set (top_words words n_words) \<Longrightarrow> w' \<in> set words
           \<Longrightarrow> w' \<notin> set (top_words words n_words)
           \<Longrightarrow> count_list words w' \<le> count_list words w"
proof -
  let ?c = "counter words" and ?mc = "most_common (counter words) (n_words - 1)"
  note C = counter_facts [where ws = words]
  note M = most_common_facts [OF C(1), where n = "n_words - 1"]
  show "distinct (top_words words n_words)" using M(1) by (simp add: top_words_def)
  show "set (top_words words n_words) \<subseteq> set words"
    using M(2) C(2) by (auto simp: top_words_def)
  have "length ?c = card (set words)"
    using C(1,2) by (metis distinct_card length_map)
  then show "length (top_words words n_words) = min (nat (n_words - 1)) (card (set words))"
    using M(3) by (simp add: top_words_def)
  show cnt: "c = int (count_list words w)" if "(w, c) \<in> set ?mc" for w c
    using that M(2) C(3) by blast
  show "count_list words w' \<le> count_list words w"
    if w: "w \<in> set (top_words words n_words)" and w': "w' \<in> set words"
      "w' \<notin> set (top_words words n_words)"
  proof -
    from w obtain c where x: "(w, c) \<in> set ?mc" by (auto simp: top_words_def)
    have y: "(w', int (count_list words w')) \<in> set ?c" using w'(1) C(3) by simp
    have y': "(w', int (count_list words w')) \<notin> set ?mc"
      using w'(2) by (force simp: top_words_def)
    have "snd (w', int (count_list words w')) \<le> snd (w, c)" by (rule M(4) [OF x y y'])
    then show ?thesis using cnt [OF x] by simp
  qed
qed


section \<open>The encoded corpus and the count of the sentinel\<close>

text \<open>
  C7. For the tuple \<open>build_dataset\<close> returns: the encoded corpus has the length of the
  input; at every position, a token that is one of the kept words is encoded by its value
  in \<open>dictionary\<close>, which is at least 1, and any other token by 0; the first entry of
  \<open>count\<close> is the sentinel with the number of input tokens that are not kept words, and
  the other entries are \<open>most_common(n_words - 1)\<close>, each with the number of occurrences
  of its word. The kept words are the most frequent ones: they are distinct words of the
  input, \<open>n_words - 1\<close> of them or all the distinct words if there are fewer, and no word
  left out occurs more often than a kept word.
\<close>

theorem build_dataset_encodes:
  assumes "build_dataset words n_words = (encoded, count, dictionary, reversed_dictionary)"
  shows "length encoded = length words \<and>
         (\<forall>i<length words.
            if words ! i \<in> set (top_words words n_words)
            then dict_lookup dictionary (words ! i) = Inr (encoded ! i) \<and> 1 \<le> encoded ! i
            else encoded ! i = 0) \<and>
         count = (''UNK'', int (length (filter (\<lambda>w. w \<notin> set (top_words words n_words)) words)))
                   # most_common (counter words) (n_words - 1) \<and>
         (\<forall>wc\<in>set (most_common (counter words) (n_words - 1)).
            snd wc = int (count_list words (fst wc))) \<and>
         distinct (top_words words n_words) \<and>
         set (top_words words n_words) \<subseteq> set words \<and>
         length (top_words words n_words) = min (nat (n_words - 1)) (card (set words)) \<and>
         (\<forall>w\<in>set (top_words words n_words). \<forall>w'\<in>set words.
            w' \<notin> set (top_words words n_words) \<longrightarrow> count_list words w' \<le> count_list words w)"
proof -
  let ?mc = "most_common (counter words) (n_words - 1)"
  let ?top = "top_words words n_words"
  let ?d = "rank_words [] ((''UNK'', - 1) # ?mc)"
  have d: "dictionary = ?d"
    and e: "encoded = map (\<lambda>w. dict_get ?d w 0) words"
    and c: "count = (''UNK'', int (length (filter (\<lambda>w. dict_get ?d w 0 = 0) words))) # ?mc"
    using assms by (auto simp: build_dataset_def Let_def encode_words_eq)
  note L = dictionary_lookup [where words = words and n_words = n_words]
  have zero: "dict_get ?d w 0 = 0 \<longleftrightarrow> w \<notin> set ?top" for w
  proof (cases "w \<in> set ?top")
    case True
    then obtain r where "map_of ?d w = Some r" "1 \<le> r" using L(1) by blast
    then show ?thesis using True by (simp add: dict_get_def)
  next
    case False
    then show ?thesis using L(2) by simp
  qed
  have len: "length encoded = length words" using e by simp
  have enc: "if words ! i \<in> set ?top
            then dict_lookup dictionary (words ! i) = Inr (encoded ! i) \<and> 1 \<le> encoded ! i
            else encoded ! i = 0" if i: "i < length words" for i
  proof (cases "words ! i \<in> set ?top")
    case True
    then obtain r where "map_of ?d (words ! i) = Some r" "1 \<le> r" using L(1) by blast
    then show ?thesis using True i d e by (simp add: dict_lookup_def dict_get_def)
  next
    case False
    then show ?thesis using L(2) i e by simp
  qed
  have cnt: "count = (''UNK'', int (length (filter (\<lambda>w. w \<notin> set ?top) words))) # ?mc"
    using c zero by simp
  note T = top_words_facts [where words = words and n_words = n_words]
  have freq: "\<forall>wc\<in>set ?mc. snd wc = int (count_list words (fst wc))"
    using T(4) by auto
  have dom: "\<forall>w\<in>set ?top. \<forall>w'\<in>set words.
            w' \<notin> set ?top \<longrightarrow> count_list words w' \<le> count_list words w"
    using T(5) by blast
  show ?thesis using len enc cnt freq T(1,2,3) dom by blast
qed

text \<open>Six tokens, four distinct words, two kept.\<close>

theorem build_dataset_encodes_witness:
  "build_dataset [''a'', ''b'', ''b'', ''c'', ''c'', ''d''] 3
     = ([0, 1, 1, 2, 2, 0], [(''UNK'', 2), (''b'', 2), (''c'', 2)],
        [(''UNK'', 0), (''b'', 1), (''c'', 2)], [(0, ''UNK''), (1, ''b''), (2, ''c'')]) \<and>
   top_words [''a'', ''b'', ''b'', ''c'', ''c'', ''d''] 3 = [''b'', ''c''] \<and>
   length [0, 1, 1, 2, 2, 0 :: int] = length [''a'', ''b'', ''b'', ''c'', ''c'', ''d''] \<and>
   [(''UNK'', 2), (''b'', 2), (''c'', 2)]
     = (''UNK'', int (length (filter (\<lambda>w. w \<notin> set [''b'', ''c''])
                                [''a'', ''b'', ''b'', ''c'', ''c'', ''d''])))
         # most_common (counter [''a'', ''b'', ''b'', ''c'', ''c'', ''d'']) (3 - 1)"
proof -
  have h: "build_dataset [''a'', ''b'', ''b'', ''c'', ''c'', ''d''] 3
     = ([0, 1, 1, 2, 2, 0], [(''UNK'', 2), (''b'', 2), (''c'', 2)],
        [(''UNK'', 0), (''b'', 1), (''c'', 2)], [(0, ''UNK''), (1, ''b''), (2, ''c'')])"
    by code_simp
  have t: "top_words [''a'', ''b'', ''b'', ''c'', ''c'', ''d''] 3 = [''b'', ''c'']"
    by code_simp
  show ?thesis using build_dataset_encodes [OF h] h t by simp
qed

section \<open>The two dictionaries when the sentinel is no kept word\<close>

lemma dict_set_new: "k \<notin> set (map fst d) \<Longrightarrow> dict_set d k v = d @ [(k, v)]"
  by (induction d k v rule: dict_set.induct) auto

lemma rank_words_fresh:
  assumes "distinct (map fst count)" and "set (map fst count) \<inter> set (map fst d) = {}"
  shows "rank_words d count
           = d @ zip (map fst count) (map int [length d..<length d + length count])"
  using assms
proof (induction count arbitrary: d)
  case Nil
  then show ?case by (simp add: rank_words_def)
next
  case (Cons wc count)
  let ?d = "d @ [(fst wc, int (length d))]"
  have new: "dict_set d (fst wc) (int (length d)) = ?d"
    using Cons.prems(2) by (intro dict_set_new) auto
  have IH: "rank_words ?d count
          = ?d @ zip (map fst count) (map int [length ?d..<length ?d + length count])"
    using Cons.prems by (intro Cons.IH) auto
  have u: "[length d..<length d + length (wc # count)]
             = length d # [length ?d..<length ?d + length count]"
    by (simp add: upt_conv_Cons del: upt_Suc)
  show ?case
    unfolding rank_words_Cons new IH u by simp
qed

lemma map_of_dict_of_pairs_foldl:
  "map_of (foldl (\<lambda>d kv. dict_set d (fst kv) (snd kv)) acc kvs) = map_of acc ++ map_of (rev kvs)"
  by (induction kvs arbitrary: acc) (auto simp: map_of_dict_set map_add_def fun_eq_iff split: option.splits)

lemma dict_of_pairs_lookup:
  assumes "distinct (map fst kvs)" and "(k, v) \<in> set kvs"
  shows "dict_lookup (dict_of_pairs kvs) k = Inr v"
proof -
  have "map_of (rev kvs) k = Some v"
    using assms by (intro map_of_is_SomeI) (simp_all add: rev_map [symmetric])
  then show ?thesis
    by (simp add: dict_lookup_def dict_of_pairs_def map_of_dict_of_pairs_foldl)
qed

text \<open>
  When the token \<open>UNK\<close> is not among the kept words, the dictionary is the sentinel with
  rank 0 followed by the kept words with the ranks 1, 2, ... in their order, the reverse
  dictionary sends the rank of every word of the dictionary back to the word, and rank 0
  back to the sentinel.
\<close>

lemma round_trip_without_sentinel_token:
  assumes "build_dataset words n_words = (encoded, count, dictionary, reversed_dictionary)"
    and "''UNK'' \<notin> set (top_words words n_words)"
  shows "dictionary = (''UNK'', 0) # zip (top_words words n_words)
                         (map int [1..<Suc (length (top_words words n_words))])"
    and "\<forall>wr\<in>set dictionary. dict_lookup reversed_dictionary (snd wr) = Inr (fst wr)"
    and "dict_lookup reversed_dictionary 0 = Inr ''UNK''"
proof -
  let ?mc = "most_common (counter words) (n_words - 1)"
  let ?top = "top_words words n_words"
  have d: "dictionary = rank_words [(''UNK'', 0)] ?mc"
    and r: "reversed_dictionary = dict_of_pairs (zip (map snd dictionary) (map fst dictionary))"
    using assms(1) by (auto simp: build_dataset_def Let_def rank_words_Cons)
  have "rank_words [(''UNK'', 0)] ?mc
          = [(''UNK'', 0)] @ zip (map fst ?mc) (map int [length [(''UNK'', 0::int)]..<
                length [(''UNK'', 0::int)] + length ?mc])"
    using top_words_facts(1) [of words n_words] assms(2)
    by (intro rank_words_fresh) (simp_all add: top_words_def)
  then show shape: "dictionary = (''UNK'', 0) # zip ?top (map int [1..<Suc (length ?top)])"
    using d by (simp add: top_words_def)
  have vals: "map snd dictionary = map int [0..<Suc (length ?top)]"
    unfolding shape by (simp add: upt_conv_Cons del: upt_Suc)
  have "distinct (map snd dictionary)"
    unfolding vals by (simp add: distinct_map del: upt_Suc)
  then have dist: "distinct (map fst (zip (map snd dictionary) (map fst dictionary)))"
    by simp
  have mem: "(snd wr, fst wr) \<in> set (zip (map snd dictionary) (map fst dictionary))"
    if "wr \<in> set dictionary" for wr
    using that by (force simp: zip_map_map set_zip in_set_conv_nth)
  show rt: "\<forall>wr\<in>set dictionary. dict_lookup reversed_dictionary (snd wr) = Inr (fst wr)"
    unfolding r using dict_of_pairs_lookup [OF dist mem] by blast
  have "(''UNK'', 0) \<in> set dictionary" unfolding shape by simp
  then show "dict_lookup reversed_dictionary 0 = Inr ''UNK''"
    using rt by force
qed

section \<open>Which calls return\<close>

text \<open>Whatever the window and the corpus are, the reload at the corpus end raises.\<close>

lemma slide_at_corpus_end:
  "data_index g = int (length (data g)) \<Longrightarrow> slide span (l, g) = Inl TypeError"
  by (simp add: slide_def deque_set_slice_def)

lemma length_context_words:
  assumes "0 \<le> sw"
  shows "length (context_words (2 * sw + 1) sw) = nat (2 * sw)"
proof -
  have "[0..2 * sw + 1 - 1] = [0..sw - 1] @ sw # [sw + 1..2 * sw]"
    using assms upto_split2 [of 0 sw "2 * sw"] upto_rec2 [of 0 sw] by simp
  then have "context_words (2 * sw + 1) sw = [0..sw - 1] @ [sw + 1..2 * sw]"
    by (simp add: context_words_def filter_id_conv)
  then show ?thesis using assms by simp
qed

lemma write_pairs_succeeds:
  assumes "0 \<le> sw" and "nat sw < length (buffer l)"
    and "\<forall>cw\<in>set ws. 0 \<le> cw \<and> nat cw < length (buffer l)"
    and "0 \<le> i * ns"
    and "nat (i * ns) + j + length ws \<le> length (batch l)"
    and "length (labels l) = length (batch l)"
  shows "\<exists>l'. write_pairs i ns sw j ws l = Inr l'"
  using assms(2-6)
proof (induction ws arbitrary: j l)
  case Nil
  then show ?case by simp
next
  case (Cons cw rest)
  let ?c = "buffer l ! nat sw" and ?x = "buffer l ! nat cw"
  let ?p = "nat (i * ns) + j"
  let ?l = "l\<lparr>batch := (batch l)[?p := Some ?c], labels := (labels l)[?p := Some ?x]\<rparr>"
  have idx: "nat (i * ns + int j) = ?p" "0 \<le> i * ns + int j"
    using Cons.prems(3) by (simp_all add: nat_add_distrib)
  have c: "py_getitem (buffer l) sw = Inr ?c"
    using assms(1) Cons.prems(1) by (simp add: py_getitem_nonneg)
  have x: "py_getitem (buffer l) cw = Inr ?x"
    using Cons.prems(2) by (simp add: py_getitem_nonneg)
  have b: "py_setitem (batch l) (i * ns + int j) (Some ?c) = Inr ((batch l)[?p := Some ?c])"
    using idx Cons.prems(4) by (simp add: py_setitem_nonneg)
  have lb: "py_setitem (labels l) (i * ns + int j) (Some ?x) = Inr ((labels l)[?p := Some ?x])"
    using idx Cons.prems(4,5) by (simp add: py_setitem_nonneg)
  have "\<exists>l'. write_pairs i ns sw (Suc j) rest ?l = Inr l'"
    using Cons.prems by (intro Cons.IH) simp_all
  then show ?case using c x b lb by simp
qed


lemma group_body_runs:
  assumes sw0: "0 \<le> sw" and ns: "0 \<le> ns" "ns \<le> 2 * sw"
    and draw: "valid_sample (context_words (2 * sw + 1) sw) (nat ns)
                 (smp i (context_words (2 * sw + 1) sw) (nat ns))"
    and buf: "length (buffer l) = nat (2 * sw + 1)"
    and room: "Suc i * nat ns \<le> length (batch l)" "length (labels l) = length (batch l)"
  shows "\<exists>l1. write_pairs (int i) ns sw 0 (smp i (context_words (2 * sw + 1) sw) (nat ns)) l
                 = Inr l1 \<and>
              group_body smp ns sw (2 * sw + 1) i (l, g) = slide (2 * sw + 1) (l1, g)"
proof -
  let ?span = "2 * sw + 1"
  let ?ws = "smp i (context_words ?span sw) (nat ns)"
  have rs: "random_sample smp i (context_words ?span sw) ns = Inr ?ws"
    using ns sw0 by (simp add: random_sample_def length_context_words)
  have ws: "length ?ws = nat ns" "\<forall>p\<in>set ?ws. 0 \<le> p \<and> p < ?span"
    using draw by (auto simp: valid_sample_def list_all_iff context_words_iff)
  have base: "nat (int i * ns) = i * nat ns" "0 \<le> int i * ns"
    using ns(1) by (simp_all add: nat_mult_distrib)
  have "\<exists>l1. write_pairs (int i) ns sw 0 ?ws l = Inr l1"
  proof (rule write_pairs_succeeds [OF sw0])
    show "nat sw < length (buffer l)" using buf sw0 by simp
    show "\<forall>cw\<in>set ?ws. 0 \<le> cw \<and> nat cw < length (buffer l)"
      using ws(2) buf by auto
    show "0 \<le> int i * ns" by (rule base(2))
    show "nat (int i * ns) + 0 + length ?ws \<le> length (batch l)"
      using room(1) ws(1) base(1) by simp
    show "length (labels l) = length (batch l)" by (rule room(2))
  qed
  then obtain l1 where W: "write_pairs (int i) ns sw 0 ?ws l = Inr l1" by blast
  then show ?thesis using rs by (simp add: group_body_def)
qed

lemma slide_moves_on:
  assumes "0 \<le> data_index g" and "data_index g < int (length (data g))"
  shows "\<exists>l'. slide span (l, g) = Inr (l', g\<lparr>data_index := data_index g + 1\<rparr>)"
  using assms by (simp add: slide_def py_getitem_def)

lemma run_groups_succeeds:
  assumes sw0: "0 \<le> sw" and ns: "0 \<le> ns" "ns \<le> 2 * sw"
    and draws: "\<forall>i<n. valid_sample (context_words (2 * sw + 1) sw) (nat ns)
                  (smp i (context_words (2 * sw + 1) sw) (nat ns))"
    and buf0: "buffer l0 = take (nat (2 * sw + 1)) (drop s (data g0))"
    and di0: "data_index g0 = int s + (2 * sw + 1)"
    and fit: "int s + (2 * sw + 1) + int n \<le> int (length (data g0))"
    and room: "n * nat ns \<le> length (batch l0)" "length (labels l0) = length (batch l0)"
  shows "\<exists>l. run_groups smp ns sw (2 * sw + 1) [0..<n] (l0, g0)
               = Inr (l, g0\<lparr>data_index := data_index g0 + int n\<rparr>)"
  using draws fit room(1)
proof (induction n)
  case 0
  then show ?case by simp
next
  case (Suc n)
  let ?span = "2 * sw + 1"
  let ?gn = "g0\<lparr>data_index := data_index g0 + int n\<rparr>"
  have "\<exists>l. run_groups smp ns sw ?span [0..<n] (l0, g0) = Inr (l, ?gn)"
  proof (rule Suc.IH)
    show "\<forall>i<n. valid_sample (context_words ?span sw) (nat ns)
                  (smp i (context_words ?span sw) (nat ns))"
      using Suc.prems(1) by (meson less_Suc_eq)
    show "int s + ?span + int n \<le> int (length (data g0))" using Suc.prems(2) by simp
    show "n * nat ns \<le> length (batch l0)" using Suc.prems(3) by simp
  qed
  then obtain ln where A: "run_groups smp ns sw ?span [0..<n] (l0, g0) = Inr (ln, ?gn)"
    by blast
  have span0: "0 < ?span" using sw0 by simp
  have bn: "buffer ln = take (nat ?span) (drop (s + n) (data g0))"
    by (rule run_groups_buffer [OF A span0 di0 buf0])
  have "s + n + nat ?span \<le> length (data g0)" using Suc.prems(2) sw0 by simp
  then have len: "length (buffer ln) = nat ?span" using bn by simp
  note F = run_groups_frame [OF A]
  have draw: "valid_sample (context_words ?span sw) (nat ns)
                (smp n (context_words ?span sw) (nat ns))"
    using Suc.prems(1) by (meson lessI)
  have r1: "Suc n * nat ns \<le> length (batch ln)" and r2: "length (labels ln) = length (batch ln)"
    using F Suc.prems(3) room(2) by simp_all
  from group_body_runs [where smp = smp and i = n and l = ln and g = ?gn, OF sw0 ns draw len r1 r2]
  obtain l1 where
    B: "group_body smp ns sw ?span n (ln, ?gn) = slide ?span (l1, ?gn)"
    by blast
  have "\<exists>l'. slide ?span (l1, ?gn) = Inr (l', ?gn\<lparr>data_index := data_index ?gn + 1\<rparr>)"
    using di0 sw0 Suc.prems(2) by (intro slide_moves_on) simp_all
  then obtain l' where
    "group_body smp ns sw ?span n (ln, ?gn) = Inr (l', g0\<lparr>data_index := data_index g0 + int (Suc n)\<rparr>)"
    using B by (auto simp: add.assoc)
  then show ?case using A unfolding run_groups_snoc by blast
qed


lemma enter_valid:
  assumes "0 < ns" and "bs mod ns = 0" and "ns \<le> 2 * sw" and "0 \<le> bs"
  shows "enter bs ns sw g =
           Inr (\<lparr>buffer = deque_extend (nat (2 * sw + 1)) []
                    (py_slice (data g) (start_index sw g) (start_index sw g + (2 * sw + 1))),
                 batch = replicate (nat bs) None, labels = replicate (nat bs) None,
                 reads = [start_index sw g..start_index sw g + (2 * sw + 1) - 1]\<rparr>,
                g\<lparr>data_index := start_index sw g + (2 * sw + 1)\<rparr>)"
  using assms by (simp add: enter_def np_ndarray_def start_index_def Let_def)

lemma groups_times_num_skips:
  assumes "0 < ns" and "bs mod ns = 0" and "0 \<le> bs"
  shows "nat (bs div ns) * nat ns = nat bs"
proof -
  have "bs = (bs div ns) * ns" using assms(2) div_mult_mod_eq [of bs ns] by simp
  then have "nat bs = nat ((bs div ns) * ns)" by simp
  also have "\<dots> = nat (bs div ns) * nat ns"
    using assms(1,3) by (simp add: nat_mult_distrib pos_imp_zdiv_nonneg_iff)
  finally show ?thesis by simp
qed

lemma draws_ok_prefix:
  "draws_ok smp ns sw n \<Longrightarrow> i < n \<Longrightarrow>
     valid_sample (context_words (2 * sw + 1) sw) (nat ns)
       (smp i (context_words (2 * sw + 1) sw) (nat ns))"
  by (simp add: draws_ok_def list_all_iff)

text \<open>
  A call with valid parameters (\<open>num_skips\<close> positive) on a corpus no shorter than \<open>span\<close>,
  from a cursor that is not negative and with draws that keep the contract, returns if the
  windows of all its groups and the one after them lie before the corpus end.
\<close>

lemma call_returns_when_traversal_fits:
  assumes valid: "0 < ns" "bs mod ns = 0" "ns \<le> 2 * sw" "0 \<le> bs"
    and D: "draws_ok smp ns sw (nat (bs div ns))"
    and di: "0 \<le> data_index g"
    and len: "2 * sw + 1 \<le> int (length (data g))"
    and fit: "start_index sw g + (2 * sw + 1) + int (nat (bs div ns)) \<le> int (length (data g))"
  shows "\<exists>b lb. generate_batch smp bs ns sw g
           = (Inr (b, lb), g\<lparr>data_index := start_index sw g + int (nat (bs div ns))\<rparr>)"
proof -
  let ?span = "2 * sw + 1" and ?n = "nat (bs div ns)" and ?s = "start_index sw g"
  let ?g0 = "g\<lparr>data_index := ?s + ?span\<rparr>"
  let ?l0 = "\<lparr>buffer = deque_extend (nat ?span) [] (py_slice (data g) ?s (?s + ?span)),
              batch = replicate (nat bs) None, labels = replicate (nat bs) None,
              reads = [?s..?s + ?span - 1]\<rparr>"
  have sw0: "0 \<le> sw" using valid(1,3) by simp
  have E: "enter bs ns sw g = Inr (?l0, ?g0)" by (rule enter_valid [OF valid])
  note B = enter_buffer [OF di len sw0]
  have "\<exists>l. run_groups smp ns sw ?span [0..<?n] (?l0, ?g0)
               = Inr (l, ?g0\<lparr>data_index := data_index ?g0 + int ?n\<rparr>)"
  proof (rule run_groups_succeeds [OF sw0 _ valid(3), where s = "nat ?s"])
    show "0 \<le> ns" using valid(1) by simp
    show "\<forall>i<?n. valid_sample (context_words ?span sw) (nat ns)
                  (smp i (context_words ?span sw) (nat ns))"
      using draws_ok_prefix [OF D] by blast
    show "buffer ?l0 = take (nat ?span) (drop (nat ?s) (data ?g0))" using B(3) by simp
    show "data_index ?g0 = int (nat ?s) + ?span" using B(1) by simp
    show "int (nat ?s) + ?span + int ?n \<le> int (length (data ?g0))" using fit B(1) by simp
    show "?n * nat ns \<le> length (batch ?l0)"
      using groups_times_num_skips [OF valid(1,2,4)] by simp
    show "length (labels ?l0) = length (batch ?l0)" by simp
  qed
  then obtain l where
    R: "run_groups smp ns sw ?span [0..<?n] (?l0, ?g0)
          = Inr (l, ?g0\<lparr>data_index := data_index ?g0 + int ?n\<rparr>)" by blast
  have "length (data g) \<noteq> 0" using len sw0 by auto
  then obtain g' where run: "generate_batch_run smp bs ns sw g = Inr (l, g')"
    using E R by (simp add: generate_batch_run_def run_loop_def Let_def)
  have "g' = g\<lparr>data_index := ?s + int ?n\<rparr>" by (rule success_facts(5) [OF run di len])
  then show ?thesis using run by (simp add: generate_batch_def)
qed

text \<open>
  Otherwise the loop reaches the corpus end with a group still to finish, and the call
  raises TypeError with the cursor left at the corpus length.
\<close>

lemma call_raises_when_traversal_reaches_end:
  assumes valid: "0 < ns" "bs mod ns = 0" "ns \<le> 2 * sw" "0 \<le> bs"
    and D: "draws_ok smp ns sw (nat (bs div ns))"
    and di: "0 \<le> data_index g"
    and len: "2 * sw + 1 \<le> int (length (data g))"
    and over: "int (length (data g)) < start_index sw g + (2 * sw + 1) + int (nat (bs div ns))"
  shows "generate_batch smp bs ns sw g
           = (Inl TypeError, g\<lparr>data_index := int (length (data g))\<rparr>)"
proof -
  let ?span = "2 * sw + 1" and ?n = "nat (bs div ns)" and ?s = "start_index sw g"
  let ?N = "int (length (data g))"
  let ?g0 = "g\<lparr>data_index := ?s + ?span\<rparr>"
  let ?l0 = "\<lparr>buffer = deque_extend (nat ?span) [] (py_slice (data g) ?s (?s + ?span)),
              batch = replicate (nat bs) None, labels = replicate (nat bs) None,
              reads = [?s..?s + ?span - 1]\<rparr>"
  let ?k = "nat (?N - (?s + ?span))"
  let ?gk = "g\<lparr>data_index := ?N\<rparr>"
  have sw0: "0 \<le> sw" using valid(1,3) by simp
  have ns0: "0 \<le> ns" using valid(1) by simp
  have E: "enter bs ns sw g = Inr (?l0, ?g0)" by (rule enter_valid [OF valid])
  note B = enter_buffer [OF di len sw0]
  have k: "int ?k = ?N - (?s + ?span)" "?k < ?n"
    using B(2) over by (auto split: if_splits)
  have size: "?n * nat ns = nat bs" by (rule groups_times_num_skips [OF valid(1,2,4)])
  have b0: "buffer ?l0 = take (nat ?span) (drop (nat ?s) (data ?g0))" using B(3) by simp
  have d0: "data_index ?g0 = int (nat ?s) + ?span" using B(1) by simp
  have "\<exists>l. run_groups smp ns sw ?span [0..<?k] (?l0, ?g0)
               = Inr (l, ?g0\<lparr>data_index := data_index ?g0 + int ?k\<rparr>)"
  proof (rule run_groups_succeeds [OF sw0 ns0 valid(3) _ b0 d0])
    show "\<forall>i<?k. valid_sample (context_words ?span sw) (nat ns)
                  (smp i (context_words ?span sw) (nat ns))"
      using draws_ok_prefix [OF D] k(2) by (meson less_trans)
    show "int (nat ?s) + ?span + int ?k \<le> int (length (data ?g0))" using k(1) B(1) by simp
    have "?k * nat ns \<le> ?n * nat ns" by (rule mult_le_mono1 [OF less_imp_le [OF k(2)]])
    then show "?k * nat ns \<le> length (batch ?l0)" using size by simp
    show "length (labels ?l0) = length (batch ?l0)" by simp
  qed
  then obtain lk where A: "run_groups smp ns sw ?span [0..<?k] (?l0, ?g0) = Inr (lk, ?gk)"
    using k(1) by auto
  have span0: "0 < ?span" using sw0 by simp
  have "buffer lk = take (nat ?span) (drop (nat ?s + ?k) (data ?g0))"
    by (rule run_groups_buffer [OF A span0 d0 b0])
  moreover have "nat ?s + ?k + nat ?span \<le> length (data ?g0)"
  proof -
    have "int (nat ?s + ?k + nat ?span) = int (length (data g))"
      unfolding of_nat_add k(1) using B(1) sw0 by simp
    then have "nat ?s + ?k + nat ?span = length (data g)" by (rule of_nat_eq_iff [THEN iffD1])
    then show ?thesis by simp
  qed
  ultimately have lenk: "length (buffer lk) = nat ?span" by simp
  have r1: "Suc ?k * nat ns \<le> length (batch lk)"
  proof -
    have "Suc ?k * nat ns \<le> ?n * nat ns" by (rule mult_le_mono1 [OF Suc_leI [OF k(2)]])
    then show ?thesis using size run_groups_frame [OF A] by simp
  qed
  have r2: "length (labels lk) = length (batch lk)" using run_groups_frame [OF A] by simp
  from group_body_runs [where smp = smp and i = ?k and l = lk and g = ?gk,
      OF sw0 ns0 valid(3) draws_ok_prefix [OF D k(2)] lenk r1 r2]
  obtain l1 where "group_body smp ns sw ?span ?k (lk, ?gk) = slide ?span (l1, ?gk)" by blast
  then have Bk: "group_body smp ns sw ?span ?k (lk, ?gk) = Inl TypeError"
    by (simp add: slide_at_corpus_end)
  have "[0..<?n] = [0..<?k] @ ?k # [Suc ?k..<?n]"
    using k(2) by (metis le_add_diff_inverse less_imp_le upt_add_eq_append upt_conv_Cons zero_le)
  then have "run_groups smp ns sw ?span [0..<?n] (?l0, ?g0) = Inl (TypeError, ?gk)"
    using A Bk by (simp add: run_groups_append)
  then show ?thesis
    using E by (simp add: generate_batch_def generate_batch_run_def run_loop_def)
qed

section \<open>Concrete runs\<close>

text \<open>
  C3. A corpus of length \<open>span + 1\<close> (\<open>skip_window = 1\<close>, so \<open>span = 3\<close>) and a call for two
  groups: the second group ends with the cursor at the corpus end, and the reload of the
  window raises TypeError instead of wrapping around. The call returns no batch and the
  cursor stays at the corpus length instead of becoming \<open>span\<close>.
\<close>

theorem wraparound_raises_TypeError:
  "generate_batch first_k 2 1 1 \<lparr>data = [0, 1, 2, 3], data_index = 0\<rparr>
     = (Inl TypeError, \<lparr>data = [0, 1, 2, 3], data_index = 4\<rparr>)"
  by code_simp

text \<open>
  C1. The corpus \<open>[5, 2, 2, 0, 5, 2, 7]\<close> with \<open>batch_size = 8\<close>, \<open>num_skips = 2\<close>,
  \<open>skip_window = 1\<close>: the parameters are valid and the corpus is longer than \<open>span = 3\<close>. The
  first call returns a batch and leaves the cursor at 4; the second call, from there,
  returns no batch at all.
\<close>

theorem second_call_returns_no_batch:
  "run_calls [(first_k, 8, 2, 1)] \<lparr>data = [5, 2, 2, 0, 5, 2, 7], data_index = 0\<rparr>
     = Inr ([\<lparr>buffer = [5, 2, 7],
              batch = [Some 2, Some 2, Some 2, Some 2, Some 0, Some 0, Some 5, Some 5],
              labels = [Some 5, Some 2, Some 2, Some 0, Some 2, Some 5, Some 0, Some 2],
              reads = [0, 1, 2, 3, 4, 5, 6]\<rparr>],
            \<lparr>data = [5, 2, 2, 0, 5, 2, 7], data_index = 4\<rparr>) \<and>
   generate_batch first_k 8 2 1 \<lparr>data = [5, 2, 2, 0, 5, 2, 7], data_index = 4\<rparr>
     = (Inl TypeError, \<lparr>data = [5, 2, 2, 0, 5, 2, 7], data_index = 7\<rparr>)"
  by code_simp

text \<open>
  C6. The token \<open>UNK\<close> among the most frequent words: it takes the rank 2 and loses the
  rank 0, the word \<open>b\<close> takes the rank 2 as well, and the reverse dictionary sends 2 to
  \<open>b\<close>. So \<open>reverse_dictionary[dictionary['UNK']]\<close> is \<open>b\<close>, and \<open>reverse_dictionary[0]\<close>
  raises KeyError.
\<close>

theorem sentinel_in_input_breaks_round_trip:
  "build_dataset [''a'', ''UNK'', ''b''] 4 =
     ([1, 2, 2],
      [(''UNK'', 0), (''a'', 1), (''UNK'', 1), (''b'', 1)],
      [(''UNK'', 2), (''a'', 1), (''b'', 2)],
      [(2, ''b''), (1, ''a'')]) \<and>
   dict_lookup [(''UNK'', 2 :: int), (''a'', 1), (''b'', 2)] ''UNK'' = Inr 2 \<and>
   dict_lookup [(2 :: int, ''b''), (1, ''a'')] 2 = Inr ''b'' \<and>
   dict_lookup [(2 :: int, ''b''), (1, ''a'')] 0 = Inl KeyError"
  by code_simp

section \<open>The vocabulary builder on the empty input\<close>

text \<open>
  C8. \<open>build_dataset\<close> is a function of its two arguments alone and has no exception
  branch: it reads no global and draws nothing at random, so two runs on the same input
  give the same tuple. On the empty token sequence the corpus is empty, and \<open>count\<close>,
  \<open>dictionary\<close> and \<open>reversed_dictionary\<close> hold the sentinel \<open>UNK\<close> only, with the count 0
  and the rank 0, whatever \<open>n_words\<close> is.
\<close>

theorem build_dataset_empty:
  "build_dataset [] n_words = ([], [(''UNK'', 0)], [(''UNK'', 0)], [(0, ''UNK'')])"
  by (simp add: build_dataset_def counter_def most_common_def rank_words_def
        encode_words_def dict_of_pairs_def Let_def)

end
